theory Spec2Isabelle
  imports Complex_Main "HOL-Library.Word" "HOL-Library.Log_Nat"
begin

unbundle bit_operations_syntax

section \<open>The rate limiter (utils/throttle.js)\<close>

text \<open>
  \<^verbatim>\<open>throttle(func, delay)\<close> closes over two variables, \<^verbatim>\<open>lastCall\<close> (initially
  \<^verbatim>\<open>-Infinity\<close>) and \<^verbatim>\<open>lastResult\<close> (initially \<^verbatim>\<open>undefined\<close>). The closure is a
  record here; \<^verbatim>\<open>Date.now()\<close> is an argument of each invocation (whole milliseconds).
  The wrapped function acts on the rest of the program, the world \<open>'w\<close>, and returns
  its result (for an async function: the promise it hands back).
\<close>

datatype timestamp = NegInfinity | Millis int

record 'r throttle_state =
  lastCall :: timestamp
  lastResult :: "'r option"

definition throttle_init :: "'r throttle_state" where
  "throttle_init = \<lparr>lastCall = NegInfinity, lastResult = None\<rparr>"

text \<open>\<^verbatim>\<open>timeSinceLastCall >= delay\<close>, where \<^verbatim>\<open>now - (-Infinity)\<close> is \<^verbatim>\<open>Infinity\<close>.\<close>

fun timeSinceLastCall_ge :: "int \<Rightarrow> timestamp \<Rightarrow> real \<Rightarrow> bool" where
  "timeSinceLastCall_ge now NegInfinity delay = True"
| "timeSinceLastCall_ge now (Millis t) delay = (real_of_int (now - t) \<ge> delay)"

definition throttle ::
  "('a \<Rightarrow> 'w \<Rightarrow> 'r \<times> 'w) \<Rightarrow> real \<Rightarrow> int \<Rightarrow> 'a \<Rightarrow> 'r throttle_state \<times> 'w
     \<Rightarrow> 'r option \<times> 'r throttle_state \<times> 'w" where
  "throttle func delay now args = (\<lambda>(st, w).
     if timeSinceLastCall_ge now (lastCall st) delay
     then (let (r, w') = func args w;
               st' = st\<lparr>lastResult := Some r, lastCall := Millis now\<rparr>
           in (lastResult st', st', w'))
     else (lastResult st, st, w))"

text \<open>A sequence of invocations of one wrapper, each with its clock reading.\<close>

fun throttle_run ::
  "('a \<Rightarrow> 'w \<Rightarrow> 'r \<times> 'w) \<Rightarrow> real \<Rightarrow> (int \<times> 'a) list \<Rightarrow> 'r throttle_state \<times> 'w
     \<Rightarrow> 'r option list \<times> 'r throttle_state \<times> 'w" where
  "throttle_run func delay [] (st, w) = ([], st, w)"
| "throttle_run func delay ((now, args) # cs) (st, w) =
     (let (r, st', w') = throttle func delay now args (st, w);
          (rs, st'', w'') = throttle_run func delay cs (st', w')
      in (r # rs, st'', w''))"

text \<open>
  The contract in the specification's words: the wrapper remembers the last executed
  invocation (its time and what it computed); an invocation executes \<open>f\<close> when none
  has been executed yet or at least \<open>d\<close> milliseconds have passed since that one, and
  otherwise hands back what that one computed.
\<close>

fun spec_rate_limiter ::
  "('a \<Rightarrow> 'w \<Rightarrow> 'r \<times> 'w) \<Rightarrow> real \<Rightarrow> (int \<times> 'a) list \<Rightarrow> (int \<times> 'r) option \<Rightarrow> 'w
     \<Rightarrow> 'r option list \<times> (int \<times> 'r) option \<times> 'w" where
  "spec_rate_limiter f d [] last_exec w = ([], last_exec, w)"
| "spec_rate_limiter f d ((now, args) # cs) last_exec w =
     (case last_exec of
        None \<Rightarrow>
          (let (r, w') = f args w;
               (rs, l, w'') = spec_rate_limiter f d cs (Some (now, r)) w'
           in (Some r # rs, l, w''))
      | Some (t, prev) \<Rightarrow>
          if real_of_int (now - t) \<ge> d
          then (let (r, w') = f args w;
                    (rs, l, w'') = spec_rate_limiter f d cs (Some (now, r)) w'
                in (Some r # rs, l, w''))
          else (let (rs, l, w'') = spec_rate_limiter f d cs (Some (t, prev)) w
                in (Some prev # rs, l, w'')))"

text \<open>How the closure's two variables hold the last executed invocation.\<close>

fun closure_of :: "(int \<times> 'r) option \<Rightarrow> 'r throttle_state" where
  "closure_of None = \<lparr>lastCall = NegInfinity, lastResult = None\<rparr>"
| "closure_of (Some (t, r)) = \<lparr>lastCall = Millis t, lastResult = Some r\<rparr>"

section \<open>Double-precision numbers\<close>

text \<open>
  The times of the audio clock and the durations of buffers are IEEE 754 binary64
  numbers, and the scheduler adds and compares them as such. The audio clock and a
  buffer's duration are never negative and never \<^verbatim>\<open>NaN\<close>, and the scheduler only adds,
  so the numbers it handles are the non-negative doubles and \<^verbatim>\<open>Infinity\<close>. A finite one
  is given by its value in units of \<open>2\<^sup>-\<^sup>1\<^sup>0\<^sup>7\<^sup>4\<close>, the smallest positive double: every
  finite double is a whole number of these units, and so is the exact sum of two.
\<close>

text \<open>
  The number of low bits that do not fit the 53-bit significand, for a value counted in
  units of \<open>2\<^sup>-\<^sup>1\<^sup>0\<^sup>7\<^sup>4\<close>.
\<close>

definition dropped_bits :: "nat \<Rightarrow> nat" where
  "dropped_bits n = floorlog 2 n - 53"

text \<open>A finite double: below \<open>2\<^sup>1\<^sup>0\<^sup>2\<^sup>4\<close>, and a multiple of the unit of its binade.\<close>

definition representable :: "nat \<Rightarrow> bool" where
  "representable n = (n < 2 ^ 2098 \<and> n mod 2 ^ dropped_bits n = 0)"

text \<open>
  Rounding to the nearest value with a 53-bit significand, ties to the even
  significand (the exponent is not bounded here).
\<close>

definition nearest :: "nat \<Rightarrow> nat" where
  "nearest n =
     (let k = dropped_bits n; q = n div 2 ^ k; r = n mod 2 ^ k
      in (if 2 * r < 2 ^ k then q
          else if 2 ^ k < 2 * r then q + 1
          else if even q then q else q + 1) * 2 ^ k)"

text \<open>The non-negative doubles; \<open>None\<close> is \<^verbatim>\<open>Infinity\<close>.\<close>

typedef double = "{x :: nat option. case x of None \<Rightarrow> True | Some n \<Rightarrow> representable n}"
  morphisms units Double
  by (rule exI [of _ None]) simp

text \<open>The double nearest to a number of units; \<^verbatim>\<open>Infinity\<close> from \<open>2\<^sup>1\<^sup>0\<^sup>2\<^sup>4\<close> on.\<close>

definition to_double :: "nat \<Rightarrow> double" where
  "to_double n = (if nearest n < 2 ^ 2098 then Double (Some (nearest n)) else Double None)"

definition PosInfinity :: double where
  "PosInfinity = Double None"

text \<open>The double \<open>m \<times> 2\<^sup>e\<close>, for a significand \<open>m\<close> of at most 53 bits.\<close>

definition dbl :: "nat \<Rightarrow> int \<Rightarrow> double" where
  "dbl m e = to_double (m * 2 ^ nat (e + 1074))"

text \<open>
  \<^verbatim>\<open>0\<close>, \<^verbatim>\<open>a + b\<close> (the exact sum, rounded), and the order of \<^verbatim>\<open>a < b\<close> and \<^verbatim>\<open>a <= b\<close>.
\<close>

instantiation double :: "{zero, plus, linorder}"
begin

definition zero_double :: double where
  "zero_double = Double (Some 0)"

definition plus_double :: "double \<Rightarrow> double \<Rightarrow> double" where
  "plus_double a b =
     (case units a of
        None \<Rightarrow> Double None
      | Some x \<Rightarrow> (case units b of None \<Rightarrow> Double None | Some y \<Rightarrow> to_double (x + y)))"

definition less_eq_double :: "double \<Rightarrow> double \<Rightarrow> bool" where
  "less_eq_double a b =
     (case units b of
        None \<Rightarrow> True
      | Some y \<Rightarrow> (case units a of None \<Rightarrow> False | Some x \<Rightarrow> x \<le> y))"

definition less_double :: "double \<Rightarrow> double \<Rightarrow> bool" where
  "less_double a b = (a \<le> b \<and> \<not> b \<le> (a::double))"

instance
proof
  fix x y z :: double
  show "(x < y) = (x \<le> y \<and> \<not> y \<le> x)" by (simp add: less_double_def)
  show "x \<le> x" by (simp add: less_eq_double_def split: option.splits)
  show "x \<le> y \<Longrightarrow> y \<le> z \<Longrightarrow> x \<le> z"
    by (auto simp: less_eq_double_def split: option.splits)
  show "x \<le> y \<Longrightarrow> y \<le> x \<Longrightarrow> x = y"
    by (auto simp: less_eq_double_def units_inject [symmetric] split: option.splits)
  show "x \<le> y \<or> y \<le> x"
    by (auto simp: less_eq_double_def split: option.splits)
qed

end

section \<open>The playback coordinator (utils/LiveMusicHelper.js)\<close>

text \<open>
  The fields of \<^verbatim>\<open>LiveMusicHelper\<close> that its session, prompt and scheduling logic
  reads or writes, with what the class does to the outside recorded in logs: the
  events it dispatches, the calls it makes on a session handle, the connections it
  opens, the buffers it starts and the timeouts it sets. Audio-clock times and
  durations (seconds) are doubles. A session handle is the number of the
  connection that produced it; \<^verbatim>\<open>sessionPromise\<close> holds the settled outcome of the
  connection attempt. The gain ramps and the recorder are left out. Every method runs
  to completion before the next one starts.
\<close>

datatype playback = Stopped | Loading | Playing | Paused

record prompt =
  promptId :: string
  ptext :: string
  weight :: real
  cc :: int
  color :: string

text \<open>A \<^verbatim>\<open>Map\<close> from prompt id to prompt, in insertion order.\<close>

type_synonym prompt_map = "(string \<times> prompt) list"

record filtered_prompt =
  fp_text :: string
  filteredReason :: string

datatype event =
    ErrorEvent string
  | PlaybackStateChanged playback
  | FilteredPromptEvent filtered_prompt

datatype session_call =
    SetWeightedPromptsCall "prompt list"
  | PlayCall
  | PauseCall
  | StopCall

datatype promise = Resolves nat | Rejects

datatype js_error = TypeError | DecodeRejected | ConnectRejected

record audio_chunk =
  chunk_data :: string
  mimeType :: string

record audio_buffer =
  duration :: double

record message =
  setupComplete :: bool
  filteredPrompt :: "filtered_prompt option"
  audioChunks :: "audio_chunk list option"

record helper =
  session :: "nat option"
  sessionPromise :: "promise option"
  connectionError :: bool
  filteredPrompts :: "string set"
  nextStartTime :: double
  playbackState :: playback
  prompts :: prompt_map
  swpThrottle :: "unit throttle_state"
  dispatched :: "event list"
  sessionCalls :: "(nat \<times> session_call) list"
  connects :: nat
  started :: "(double \<times> double) list"
  timeouts :: "double list"

text \<open>\<^verbatim>\<open>this.bufferTime = 2\<close>: assigned in the constructor and nowhere else.\<close>

definition bufferTime :: double where
  "bufferTime = dbl 2 0"

definition helper_new :: helper where
  "helper_new =
     \<lparr>session = None, sessionPromise = None, connectionError = True,
      filteredPrompts = {}, nextStartTime = 0, playbackState = Stopped, prompts = [],
      swpThrottle = throttle_init, dispatched = [], sessionCalls = [], connects = 0,
      started = [], timeouts = []\<rparr>"

definition dispatchEvent :: "event \<Rightarrow> helper \<Rightarrow> helper" where
  "dispatchEvent e s = s\<lparr>dispatched := dispatched s @ [e]\<rparr>"

definition setPlaybackState :: "playback \<Rightarrow> helper \<Rightarrow> helper" where
  "setPlaybackState st s = dispatchEvent (PlaybackStateChanged st) (s\<lparr>playbackState := st\<rparr>)"

text \<open>A call on \<^verbatim>\<open>this.session\<close>, made only \<^verbatim>\<open>if (this.session)\<close>.\<close>

definition callSession :: "session_call \<Rightarrow> helper \<Rightarrow> helper" where
  "callSession c s =
     (case session s of
        None \<Rightarrow> s
      | Some h \<Rightarrow> s\<lparr>sessionCalls := sessionCalls s @ [(h, c)]\<rparr>)"

definition pause :: "helper \<Rightarrow> helper" where
  "pause s = (setPlaybackState Paused (callSession PauseCall s))\<lparr>nextStartTime := 0\<rparr>"

definition stop :: "helper \<Rightarrow> helper" where
  "stop s =
     (setPlaybackState Stopped (callSession StopCall s))
       \<lparr>nextStartTime := 0, session := None, sessionPromise := None\<rparr>"

definition activePrompts :: "helper \<Rightarrow> prompt list" where
  "activePrompts s =
     filter (\<lambda>p. \<not> (ptext p \<in> filteredPrompts s) \<and> weight p \<noteq> 0) (map snd (prompts s))"

text \<open>
  The function that \<^verbatim>\<open>setWeightedPrompts\<close> wraps. \<open>reject\<close> is the backend's answer to
  \<^verbatim>\<open>session.setWeightedPrompts\<close>, should the call be made: \<open>None\<close> when it resolves,
  \<open>Some m\<close> when it rejects with message \<open>m\<close>.
\<close>

definition setWeightedPrompts_body :: "string option \<Rightarrow> prompt_map \<Rightarrow> helper \<Rightarrow> unit \<times> helper" where
  "setWeightedPrompts_body reject ps s =
     (let s1 = s\<lparr>prompts := ps\<rparr> in
      if length (activePrompts s1) = 0
      then ((), pause (dispatchEvent (ErrorEvent ''There needs to be one active prompt to play.'') s1))
      else if session s1 = None then ((), s1)
      else (let s2 = callSession (SetWeightedPromptsCall (activePrompts s1)) s1 in
            case reject of
              None \<Rightarrow> ((), s2)
            | Some m \<Rightarrow> ((), pause (dispatchEvent (ErrorEvent m) s2))))"

text \<open>\<^verbatim>\<open>setWeightedPrompts = throttle(async (prompts) => {...}, 200)\<close>\<close>

definition setWeightedPrompts :: "int \<Rightarrow> string option \<Rightarrow> prompt_map \<Rightarrow> helper \<Rightarrow> helper" where
  "setWeightedPrompts now reject ps s =
     (case throttle (setWeightedPrompts_body reject) 200 now ps (swpThrottle s, s) of
        (r, t, s') \<Rightarrow> s'\<lparr>swpThrottle := t\<rparr>)"

text \<open>
  \<open>ok\<close> tells whether the backend's \<^verbatim>\<open>ai.live.music.connect\<close> resolves; each call
  opens a connection of its own, numbered in order.
\<close>

definition connect :: "bool \<Rightarrow> helper \<Rightarrow> promise \<times> helper" where
  "connect ok s =
     (let p = (if ok then Resolves (connects s) else Rejects)
      in (p, s\<lparr>sessionPromise := Some p, connects := Suc (connects s)\<rparr>))"

definition getSession :: "bool \<Rightarrow> helper \<Rightarrow> promise \<times> helper" where
  "getSession ok s =
     (case sessionPromise s of
        None \<Rightarrow> (let (p, s') = connect ok s in (p, s'\<lparr>sessionPromise := Some p\<rparr>))
      | Some p \<Rightarrow> (p, s))"

text \<open>
  \<^verbatim>\<open>play()\<close> runs up to \<^verbatim>\<open>await this.getSession()\<close>, and goes on with what the promise
  settles to. \<open>play\<close> is the two parts with nothing in between.
\<close>

definition play_begin :: "bool \<Rightarrow> helper \<Rightarrow> promise \<times> helper" where
  "play_begin ok s = getSession ok (setPlaybackState Loading s)"

definition play_resume :: "int \<Rightarrow> string option \<Rightarrow> promise \<Rightarrow> helper \<Rightarrow> js_error option \<times> helper" where
  "play_resume now reject p s1 =
     (case p of
        Rejects \<Rightarrow> (Some ConnectRejected, s1)
      | Resolves h \<Rightarrow>
          (let s2 = s1\<lparr>session := Some h\<rparr>;
               s3 = setWeightedPrompts now reject (prompts s2) s2
           in case session s3 of
                None \<Rightarrow> (Some TypeError, s3)
              | Some h' \<Rightarrow> (None, callSession PlayCall s3)))"

definition play :: "int \<Rightarrow> bool \<Rightarrow> string option \<Rightarrow> helper \<Rightarrow> js_error option \<times> helper" where
  "play now ok reject s =
     (let (p, s1) = play_begin ok s in play_resume now reject p s1)"

definition playPause :: "int \<Rightarrow> bool \<Rightarrow> string option \<Rightarrow> helper \<Rightarrow> js_error option \<times> helper" where
  "playPause now ok reject s =
     (case playbackState s of
        Playing \<Rightarrow> (None, pause s)
      | Paused \<Rightarrow> play now ok reject s
      | Stopped \<Rightarrow> play now ok reject s
      | Loading \<Rightarrow> (None, stop s))"

text \<open>
  \<open>dec\<close> stands for \<^verbatim>\<open>decodeAudioData(decode(data), ...)\<close> of utils/audio.js: the
  decoded buffer, or \<open>None\<close> when decoding rejects. \<open>now\<close> is
  \<^verbatim>\<open>audioContext.currentTime\<close>, read after decoding. The timeout is logged with its
  delay in seconds (the code hands it over in milliseconds). \<^verbatim>\<open>source.start\<close> takes a
  finite time and throws a TypeError on \<^verbatim>\<open>Infinity\<close>.
\<close>

definition processAudioChunks ::
  "(string \<Rightarrow> audio_buffer option) \<Rightarrow> double \<Rightarrow> audio_chunk list \<Rightarrow> helper \<Rightarrow> js_error option \<times> helper" where
  "processAudioChunks dec now chunks s =
     (if playbackState s = Paused \<or> playbackState s = Stopped then (None, s)
      else case chunks of
        [] \<Rightarrow> (Some TypeError, s)
      | c # rest \<Rightarrow>
          (case dec (chunk_data c) of
             None \<Rightarrow> (Some DecodeRejected, s)
           | Some audioBuffer \<Rightarrow>
               (let s1 = (if nextStartTime s = 0
                          then s\<lparr>nextStartTime := now + bufferTime,
                                 timeouts := timeouts s @ [bufferTime]\<rparr>
                          else s)
                in if nextStartTime s1 < now
                   then (None, (setPlaybackState Loading s1)\<lparr>nextStartTime := 0\<rparr>)
                   else if nextStartTime s1 = PosInfinity then (Some TypeError, s1)
                   else (None, s1\<lparr>started := started s1 @ [(nextStartTime s1, duration audioBuffer)],
                                  nextStartTime := nextStartTime s1 + duration audioBuffer\<rparr>))))"

text \<open>The callback of the timeout set when the clock is primed.\<close>

definition timeoutFired :: "helper \<Rightarrow> helper" where
  "timeoutFired s = setPlaybackState Playing s"

definition onmessage ::
  "(string \<Rightarrow> audio_buffer option) \<Rightarrow> double \<Rightarrow> message \<Rightarrow> helper \<Rightarrow> js_error option \<times> helper" where
  "onmessage dec now e s =
     (let s1 = (if setupComplete e then s\<lparr>connectionError := False\<rparr> else s);
          s2 = (case filteredPrompt e of
                  None \<Rightarrow> s1
                | Some fp \<Rightarrow>
                    dispatchEvent (FilteredPromptEvent fp)
                      (s1\<lparr>filteredPrompts := filteredPrompts s1 \<union> {fp_text fp}\<rparr>))
      in case audioChunks e of
           None \<Rightarrow> (None, s2)
         | Some chunks \<Rightarrow> processAudioChunks dec now chunks s2)"

definition onerror :: "helper \<Rightarrow> helper" where
  "onerror s =
     dispatchEvent (ErrorEvent ''Connection error, please restart audio.'')
       (stop (s\<lparr>connectionError := True\<rparr>))"

definition onclose :: "helper \<Rightarrow> helper" where
  "onclose s =
     dispatchEvent (ErrorEvent ''Connection error, please restart audio.'')
       (stop (s\<lparr>connectionError := True\<rparr>))"

section \<open>Sequences of chunks reaching the scheduler\<close>

text \<open>
  The start time a chunk is aimed at: \<^verbatim>\<open>nextStartTime\<close> once the clock is primed
  (step 3 of the scheduler, which comes before the underrun check).
\<close>

definition target_start :: "double \<Rightarrow> helper \<Rightarrow> double" where
  "target_start now s = (if nextStartTime s = 0 then now + bufferTime else nextStartTime s)"

text \<open>The duration of the buffer decoded from the first chunk of a message, if any.\<close>

definition decoded_duration :: "(string \<Rightarrow> audio_buffer option) \<Rightarrow> audio_chunk list \<Rightarrow> double option" where
  "decoded_duration dec chunks =
     (case chunks of [] \<Rightarrow> None | c # rest \<Rightarrow> map_option duration (dec (chunk_data c)))"

text \<open>
  Messages with chunks handled one after the other, each with the clock reading at
  its handling. A call that throws leaves the coordinator as it was, or primed.
\<close>

fun scheduler_run ::
  "(string \<Rightarrow> audio_buffer option) \<Rightarrow> (double \<times> audio_chunk list) list \<Rightarrow> helper \<Rightarrow> helper" where
  "scheduler_run dec [] s = s"
| "scheduler_run dec ((now, chunks) # later) s =
     scheduler_run dec later (snd (processAudioChunks dec now chunks s))"

text \<open>
  The chunk is handled while the state is neither paused nor stopped, decodes to a
  buffer, does not take the underrun branch, and is started (at a finite time).
\<close>

definition schedules ::
  "(string \<Rightarrow> audio_buffer option) \<Rightarrow> double \<Rightarrow> audio_chunk list \<Rightarrow> helper \<Rightarrow> bool" where
  "schedules dec now chunks s =
     (playbackState s \<noteq> Paused \<and> playbackState s \<noteq> Stopped \<and>
      decoded_duration dec chunks \<noteq> None \<and>
      \<not> target_start now s < now \<and> target_start now s \<noteq> PosInfinity)"

fun all_scheduled ::
  "(string \<Rightarrow> audio_buffer option) \<Rightarrow> (double \<times> audio_chunk list) list \<Rightarrow> helper \<Rightarrow> bool" where
  "all_scheduled dec [] s = True"
| "all_scheduled dec ((now, chunks) # later) s =
     (schedules dec now chunks s \<and>
      all_scheduled dec later (snd (processAudioChunks dec now chunks s)))"

text \<open>The entries that a sequence of scheduled chunks adds to the started buffers.\<close>

fun expected_starts ::
  "(string \<Rightarrow> audio_buffer option) \<Rightarrow> (double \<times> audio_chunk list) list \<Rightarrow> helper \<Rightarrow> (double \<times> double) list" where
  "expected_starts dec [] s = []"
| "expected_starts dec ((now, chunks) # later) s =
     (target_start now s, (case decoded_duration dec chunks of None \<Rightarrow> 0 | Some d \<Rightarrow> d))
       # expected_starts dec later (snd (processAudioChunks dec now chunks s))"

text \<open>
  Sample inputs for the scheduler: a decoder that gives buffers of 1 s and 3 s, and
  one whose buffers all have the same duration.
\<close>

definition sample_decoder :: "string \<Rightarrow> audio_buffer option" where
  "sample_decoder d =
     (if d = ''a'' then Some \<lparr>duration = dbl 1 0\<rparr>
      else if d = ''b'' then Some \<lparr>duration = dbl 3 0\<rparr>
      else None)"

definition sample_chunk :: "string \<Rightarrow> audio_chunk" where
  "sample_chunk d = \<lparr>chunk_data = d, mimeType = ''audio/pcm''\<rparr>"

definition constant_decoder :: "double \<Rightarrow> string \<Rightarrow> audio_buffer option" where
  "constant_decoder d x = Some \<lparr>duration = d\<rparr>"

section \<open>Operations on the coordinator, in sequence\<close>

text \<open>
  What can happen to a coordinator: a call of one of its methods by the application, a
  callback of the connection, or the timeout set by the scheduler. Each carries what
  the environment contributes: clock readings, whether the backend accepts.
\<close>

datatype op =
    CallSetWeightedPrompts int "string option" prompt_map
  | CallPlay int bool "string option"
  | CallPause
  | CallStop
  | CallPlayPause int bool "string option"
  | OnMessage double message
  | OnError
  | OnClose
  | OnTimeout

fun helper_step :: "(string \<Rightarrow> audio_buffer option) \<Rightarrow> op \<Rightarrow> helper \<Rightarrow> helper" where
  "helper_step dec (CallSetWeightedPrompts now reject ps) s = setWeightedPrompts now reject ps s"
| "helper_step dec (CallPlay now ok reject) s = snd (play now ok reject s)"
| "helper_step dec CallPause s = pause s"
| "helper_step dec CallStop s = stop s"
| "helper_step dec (CallPlayPause now ok reject) s = snd (playPause now ok reject s)"
| "helper_step dec (OnMessage now e) s = snd (onmessage dec now e s)"
| "helper_step dec OnError s = onerror s"
| "helper_step dec OnClose s = onclose s"
| "helper_step dec OnTimeout s = timeoutFired s"

fun helper_run :: "(string \<Rightarrow> audio_buffer option) \<Rightarrow> op list \<Rightarrow> helper \<Rightarrow> helper" where
  "helper_run dec [] s = s"
| "helper_run dec (x # xs) s = helper_run dec xs (helper_step dec x s)"

text \<open>
  Handles come from connections already opened: the one in \<^verbatim>\<open>session\<close> and the one the
  cached promise resolves to are below the number of connections made.
\<close>

definition handles_issued :: "helper \<Rightarrow> bool" where
  "handles_issued s =
     ((case session s of None \<Rightarrow> True | Some h \<Rightarrow> h < connects s) \<and>
      (case sessionPromise s of
         None \<Rightarrow> True
       | Some Rejects \<Rightarrow> True
       | Some (Resolves h) \<Rightarrow> h < connects s))"

text \<open>Sample prompt sets and coordinator states.\<close>

definition sample_prompts :: "real \<Rightarrow> prompt_map" where
  "sample_prompts w =
     [(''prompt-0'',
       \<lparr>promptId = ''prompt-0'', ptext = ''Bossa Nova'', weight = w, cc = 0, color = ''#9900ff''\<rparr>)]"

definition sample_playing :: helper where
  "sample_playing = snd (play 1000 True None (setWeightedPrompts 0 None (sample_prompts 1) helper_new))"

definition sample_notice :: message where
  "sample_notice =
     \<lparr>setupComplete = False,
      filteredPrompt = Some \<lparr>fp_text = ''Bossa Nova'', filteredReason = ''blocked''\<rparr>,
      audioChunks = None\<rparr>"

definition sample_reconnected :: helper where
  "sample_reconnected =
     snd (play 9000 True None (stop (snd (onmessage sample_decoder 0 sample_notice sample_playing))))"

section \<open>The MIDI bridge (utils/MidiDispatcher.js)\<close>

text \<open>
  The handler that \<^verbatim>\<open>getMidiAccess\<close> installs on every input. A message's \<^verbatim>\<open>data\<close> is a
  byte array or missing; reading an array past its end gives \<^verbatim>\<open>undefined\<close>, which
  \<^verbatim>\<open>&\<close> takes as 0. The dispatched \<^verbatim>\<open>cc-message\<close> events and the console errors are
  logs.
\<close>

record cc_detail =
  detail_cc :: "8 word option"
  detail_value :: "8 word option"
  detail_channel :: "8 word"

record midi_dispatcher =
  activeMidiInputId :: "string option"
  cc_messages :: "cc_detail list"
  console_errors :: "string list"

definition js_index :: "'a list \<Rightarrow> nat \<Rightarrow> 'a option" where
  "js_index xs i = (if i < length xs then Some (xs ! i) else None)"

definition js_and :: "8 word option \<Rightarrow> 8 word \<Rightarrow> 8 word" where
  "js_and v m = (case v of None \<Rightarrow> 0 | Some b \<Rightarrow> b AND m)"

definition onmidimessage :: "string \<Rightarrow> 8 word list option \<Rightarrow> midi_dispatcher \<Rightarrow> midi_dispatcher" where
  "onmidimessage input_id data d =
     (if Some input_id \<noteq> activeMidiInputId d then d
      else case data of
        None \<Rightarrow> d\<lparr>console_errors := console_errors d @ [''MIDI message has no data'']\<rparr>
      | Some bytes \<Rightarrow>
          (let statusByte = js_index bytes 0;
               channel = js_and statusByte 0x0f;
               messageType = js_and statusByte 0xf0;
               isControlChange = (messageType = 0xb0)
           in if \<not> isControlChange then d
              else d\<lparr>cc_messages := cc_messages d @
                     [\<lparr>detail_cc = js_index bytes 1, detail_value = js_index bytes 2,
                       detail_channel = channel\<rparr>]\<rparr>))"

section \<open>Saving and loading prompt sets (components/PromptDjMidi.js)\<close>

text \<open>
  The values a prompt object can hold: a number is \<^verbatim>\<open>NaN\<close> or a sign and a magnitude (so
  \<^verbatim>\<open>-0\<close> and both infinities are there); an object is its own properties in the order
  in which the engine enumerates them.
\<close>

datatype js_number = NaN | Signed bool double

datatype jsval =
    VUndefined
  | VNull
  | VBool bool
  | VNum js_number
  | VStr string
  | VArr "jsval list"
  | VObj "(string \<times> jsval) list"

text \<open>
  A JSON document: what a JSON text says, with each numeral read as the double it
  denotes. The file that \<^verbatim>\<open>handleSaveSet\<close> offers for download holds the text of such a
  document, and \<^verbatim>\<open>handleLoadSet\<close> reads one from a file.
\<close>

datatype json =
    JNull
  | JBool bool
  | JNum bool double
  | JStr string
  | JArr "json list"
  | JObj "(string \<times> json) list"

text \<open>
  \<^verbatim>\<open>JSON.stringify\<close>, as the document of the text it writes (\<open>None\<close> when it returns
  \<^verbatim>\<open>undefined\<close>): \<^verbatim>\<open>NaN\<close> and the infinities are written \<^verbatim>\<open>null\<close>, \<^verbatim>\<open>-0\<close> is written \<^verbatim>\<open>0\<close>,
  every other number by a numeral that reads back as the same double; \<^verbatim>\<open>undefined\<close> is
  written \<^verbatim>\<open>null\<close> in an array and left out of an object. The indentation asked for
  (\<^verbatim>\<open>null, 2\<close>) is white space of the text and no part of the document.
\<close>

definition number_document :: "js_number \<Rightarrow> json" where
  "number_document n =
     (case n of
        NaN \<Rightarrow> JNull
      | Signed negative magnitude \<Rightarrow>
          if magnitude = PosInfinity then JNull
          else if magnitude = 0 then JNum False 0
          else JNum negative magnitude)"

definition element_document :: "json option \<Rightarrow> json" where
  "element_document r = (case r of None \<Rightarrow> JNull | Some j \<Rightarrow> j)"

definition property_document :: "string \<times> json option \<Rightarrow> (string \<times> json) list" where
  "property_document kr = (case snd kr of None \<Rightarrow> [] | Some j \<Rightarrow> [(fst kr, j)])"

primrec JSON_stringify :: "jsval \<Rightarrow> json option" where
  "JSON_stringify VUndefined = None"
| "JSON_stringify VNull = Some JNull"
| "JSON_stringify (VBool b) = Some (JBool b)"
| "JSON_stringify (VNum n) = Some (number_document n)"
| "JSON_stringify (VStr s) = Some (JStr s)"
| "JSON_stringify (VArr xs) = Some (JArr (map element_document (map JSON_stringify xs)))"
| "JSON_stringify (VObj kvs) =
     Some (JObj (concat (map property_document (map (map_prod id JSON_stringify) kvs))))"

text \<open>
  A property name is an array index when it is the decimal numeral, without leading
  zeros, of an integer below \<open>2\<^sup>3\<^sup>2 - 1\<close>. An object enumerates its array indices
  first, in ascending order, then its other names in the order of their creation.
\<close>

definition digit_value :: "char \<Rightarrow> nat option" where
  "digit_value c =
     (if (48::nat) \<le> of_char c \<and> of_char c \<le> (57::nat) then Some (of_char c - 48) else None)"

fun decimal :: "nat \<Rightarrow> string \<Rightarrow> nat option" where
  "decimal n [] = Some n"
| "decimal n (c # cs) =
     (case digit_value c of None \<Rightarrow> None | Some d \<Rightarrow> decimal (10 * n + d) cs)"

definition array_index :: "string \<Rightarrow> nat option" where
  "array_index k =
     (if k = [] \<or> (hd k = CHR ''0'' \<and> k \<noteq> ''0'') then None
      else case decimal 0 k of
             None \<Rightarrow> None
           | Some n \<Rightarrow> if n < 2 ^ 32 - 1 then Some n else None)"

definition enumerated_before :: "string \<Rightarrow> string \<Rightarrow> bool" where
  "enumerated_before k' k =
     (case array_index k of
        None \<Rightarrow> True
      | Some i \<Rightarrow> (case array_index k' of None \<Rightarrow> False | Some i' \<Rightarrow> i' < i))"

text \<open>
  Defining a property: a name the object has keeps its place and takes the new value;
  a new name is put where the enumeration order has it.
\<close>

fun replace_value :: "string \<Rightarrow> 'v \<Rightarrow> (string \<times> 'v) list \<Rightarrow> (string \<times> 'v) list" where
  "replace_value k v [] = []"
| "replace_value k v ((k', v') # obj) =
     (if k = k' then (k', v) # obj else (k', v') # replace_value k v obj)"

fun new_property :: "string \<Rightarrow> 'v \<Rightarrow> (string \<times> 'v) list \<Rightarrow> (string \<times> 'v) list" where
  "new_property k v [] = [(k, v)]"
| "new_property k v ((k', v') # obj) =
     (if enumerated_before k' k then (k', v') # new_property k v obj
      else (k, v) # (k', v') # obj)"

definition define_property :: "string \<Rightarrow> 'v \<Rightarrow> (string \<times> 'v) list \<Rightarrow> (string \<times> 'v) list" where
  "define_property k v obj =
     (if k \<in> fst ` set obj then replace_value k v obj else new_property k v obj)"

text \<open>
  \<^verbatim>\<open>JSON.parse\<close> of a document: an object gets its properties one by one in the order of
  the text.
\<close>

definition define_properties :: "(string \<times> 'v) list \<Rightarrow> (string \<times> 'v) list" where
  "define_properties kvs = foldl (\<lambda>obj kv. define_property (fst kv) (snd kv) obj) [] kvs"

primrec JSON_parse :: "json \<Rightarrow> jsval" where
  "JSON_parse JNull = VNull"
| "JSON_parse (JBool b) = VBool b"
| "JSON_parse (JNum negative magnitude) = VNum (Signed negative magnitude)"
| "JSON_parse (JStr s) = VStr s"
| "JSON_parse (JArr xs) = VArr (map JSON_parse xs)"
| "JSON_parse (JObj kvs) = VObj (define_properties (map (map_prod id JSON_parse) kvs))"

text \<open>
  Data that JSON can say: no \<^verbatim>\<open>undefined\<close>, no \<^verbatim>\<open>NaN\<close>, no infinity, no \<^verbatim>\<open>-0\<close>; objects
  are lists of properties with different names, in enumeration order.
\<close>

definition json_number :: "js_number \<Rightarrow> bool" where
  "json_number n =
     (case n of
        NaN \<Rightarrow> False
      | Signed negative magnitude \<Rightarrow>
          magnitude \<noteq> PosInfinity \<and> \<not> (magnitude = 0 \<and> negative))"

primrec json_data :: "jsval \<Rightarrow> bool" where
  "json_data VUndefined = False"
| "json_data VNull = True"
| "json_data (VBool b) = True"
| "json_data (VNum n) = json_number n"
| "json_data (VStr s) = True"
| "json_data (VArr xs) = list_all (\<lambda>b. b) (map json_data xs)"
| "json_data (VObj kvs) =
     (distinct (map fst kvs) \<and> sorted_wrt enumerated_before (map fst kvs) \<and>
      list_all (\<lambda>b. b) (map snd (map (map_prod id json_data) kvs)))"

datatype load_error =
    FileReadFailed
  | InvalidFileContent
  | JsonSyntaxError
  | InvalidSetFormat
  | NullProperty

text \<open>\<^verbatim>\<open>!v\<close> is false exactly for the truthy values.\<close>

fun truthy :: "jsval \<Rightarrow> bool" where
  "truthy VUndefined = False"
| "truthy VNull = False"
| "truthy (VBool b) = b"
| "truthy (VNum NaN) = False"
| "truthy (VNum (Signed negative magnitude)) = (magnitude \<noteq> 0)"
| "truthy (VStr s) = (s \<noteq> [])"
| "truthy (VArr xs) = True"
| "truthy (VObj kvs) = True"

text \<open>
  \<^verbatim>\<open>p.promptId\<close> and \<^verbatim>\<open>p.text\<close>: a TypeError on \<^verbatim>\<open>null\<close> and \<^verbatim>\<open>undefined\<close>; values that are
  not objects have no such property.
\<close>

fun get_property :: "jsval \<Rightarrow> string \<Rightarrow> load_error + jsval" where
  "get_property VUndefined name = Inl NullProperty"
| "get_property VNull name = Inl NullProperty"
| "get_property (VObj kvs) name = Inr (case map_of kvs name of None \<Rightarrow> VUndefined | Some v \<Rightarrow> v)"
| "get_property v name = Inr VUndefined"

text \<open>
  A \<^verbatim>\<open>Map\<close> whose keys are any values, in insertion order. Keys are compared by
  SameValueZero, and \<^verbatim>\<open>-0\<close> is stored as \<^verbatim>\<open>0\<close>; an array or object key is a reference,
  and each parsed one is new, so it equals no key already present.
\<close>

type_synonym js_map = "(jsval \<times> jsval) list"

fun map_key :: "jsval \<Rightarrow> jsval" where
  "map_key (VNum (Signed negative magnitude)) =
     (if magnitude = 0 then VNum (Signed False 0) else VNum (Signed negative magnitude))"
| "map_key k = k"

fun same_value_zero :: "jsval \<Rightarrow> jsval \<Rightarrow> bool" where
  "same_value_zero (VArr xs) k' = False"
| "same_value_zero (VObj kvs) k' = False"
| "same_value_zero k k' = (map_key k = map_key k')"

fun js_map_set :: "jsval \<Rightarrow> jsval \<Rightarrow> js_map \<Rightarrow> js_map" where
  "js_map_set k v [] = [(map_key k, v)]"
| "js_map_set k v ((k', v') # m) =
     (if same_value_zero k k' then (k', v) # m else (k', v') # js_map_set k v m)"

datatype dj_event =
    PromptsChanged js_map
  | InfoEvent string
  | LoadErrorEvent load_error

record prompt_dj =
  dj_prompts :: js_map
  dj_dispatched :: "dj_event list"

text \<open>
  What a file holds for the reader: nothing it can read, a result that is not a
  string, a text that \<^verbatim>\<open>JSON.parse\<close> rejects, or the text of a document. No selected
  file is \<open>None\<close>.
\<close>

datatype file_content = Unreadable | NonString | Malformed | Document json

text \<open>What the downloaded file holds.\<close>

definition handleSaveSet :: "prompt_dj \<Rightarrow> file_content" where
  "handleSaveSet c =
     (let promptsArray = VArr (map snd (dj_prompts c)) in
      case JSON_stringify promptsArray of
        None \<Rightarrow> Malformed
      | Some dataStr \<Rightarrow> Document dataStr)"

text \<open>\<^verbatim>\<open>p => !p.promptId || !p.text\<close> and \<^verbatim>\<open>loadedPrompts.some(...)\<close>\<close>

definition invalid_entry :: "jsval \<Rightarrow> load_error + bool" where
  "invalid_entry p =
     (case get_property p ''promptId'' of
        Inl e \<Rightarrow> Inl e
      | Inr pid \<Rightarrow>
          if \<not> truthy pid then Inr True
          else (case get_property p ''text'' of
                  Inl e \<Rightarrow> Inl e
                | Inr text \<Rightarrow> Inr (\<not> truthy text)))"

fun some_invalid :: "jsval list \<Rightarrow> load_error + bool" where
  "some_invalid [] = Inr False"
| "some_invalid (p # ps) =
     (case invalid_entry p of
        Inl e \<Rightarrow> Inl e
      | Inr True \<Rightarrow> Inr True
      | Inr False \<Rightarrow> some_invalid ps)"

text \<open>\<^verbatim>\<open>loadedPrompts.forEach(p => newPrompts.set(p.promptId, p))\<close>\<close>

fun set_each :: "jsval list \<Rightarrow> js_map \<Rightarrow> load_error + js_map" where
  "set_each [] newPrompts = Inr newPrompts"
| "set_each (p # ps) newPrompts =
     (case get_property p ''promptId'' of
        Inl e \<Rightarrow> Inl e
      | Inr pid \<Rightarrow> set_each ps (js_map_set pid p newPrompts))"

text \<open>
  The reader's \<^verbatim>\<open>onerror\<close>, and the \<^verbatim>\<open>try\<close> block of its \<^verbatim>\<open>onload\<close> up to the new map or
  the error thrown.
\<close>

definition parse_set :: "file_content \<Rightarrow> load_error + js_map" where
  "parse_set content =
     (case content of
        Unreadable \<Rightarrow> Inl FileReadFailed
      | NonString \<Rightarrow> Inl InvalidFileContent
      | Malformed \<Rightarrow> Inl JsonSyntaxError
      | Document text \<Rightarrow>
          (case JSON_parse text of
             VArr loadedPrompts \<Rightarrow>
               (case some_invalid loadedPrompts of
                  Inl e \<Rightarrow> Inl e
                | Inr True \<Rightarrow> Inl InvalidSetFormat
                | Inr False \<Rightarrow> set_each loadedPrompts [])
           | _ \<Rightarrow> Inl InvalidSetFormat))"

definition handleLoadSet :: "file_content option \<Rightarrow> prompt_dj \<Rightarrow> prompt_dj" where
  "handleLoadSet file c =
     (case file of
        None \<Rightarrow> c
      | Some content \<Rightarrow>
          (case parse_set content of
             Inl err \<Rightarrow> c\<lparr>dj_dispatched := dj_dispatched c @ [LoadErrorEvent err]\<rparr>
           | Inr newPrompts \<Rightarrow>
               c\<lparr>dj_prompts := newPrompts,
                 dj_dispatched := dj_dispatched c @
                   [PromptsChanged newPrompts, InfoEvent ''Set loaded successfully!'']\<rparr>))"

text \<open>
  A prompt set as the application builds it: the key of each entry is the non-empty
  \<^verbatim>\<open>promptId\<close> string of its value, the value has a non-empty \<^verbatim>\<open>text\<close> string, and no
  key occurs twice.
\<close>

definition well_formed_entry :: "jsval \<times> jsval \<Rightarrow> bool" where
  "well_formed_entry e =
     (case e of
        (VStr ident, VObj kvs) \<Rightarrow>
          ident \<noteq> [] \<and> map_of kvs ''promptId'' = Some (VStr ident) \<and>
          (case map_of kvs ''text'' of Some (VStr t) \<Rightarrow> t \<noteq> [] | _ \<Rightarrow> False)
      | _ \<Rightarrow> False)"

definition prompt_set :: "js_map \<Rightarrow> bool" where
  "prompt_set m = (distinct (map fst m) \<and> list_all well_formed_entry m)"

text \<open>Every prompt object of the set is data that JSON can say.\<close>

definition json_prompts :: "js_map \<Rightarrow> bool" where
  "json_prompts m = list_all json_data (map snd m)"

text \<open>An entry has a property when reading it succeeds with a truthy value.\<close>

definition has_property :: "jsval \<Rightarrow> string \<Rightarrow> bool" where
  "has_property p name = (case get_property p name of Inl e \<Rightarrow> False | Inr v \<Rightarrow> truthy v)"

text \<open>Sample prompt sets; the last holds a weight that is \<^verbatim>\<open>NaN\<close>.\<close>

definition sample_object :: "string \<Rightarrow> string \<Rightarrow> js_number \<Rightarrow> jsval" where
  "sample_object ident t w =
     VObj [(''promptId'', VStr ident), (''text'', VStr t), (''weight'', VNum w),
           (''cc'', VNum (Signed False 0)), (''color'', VStr ''#9900ff'')]"

definition sample_set :: js_map where
  "sample_set =
     [(VStr ''prompt-0'', sample_object ''prompt-0'' ''Bossa Nova'' (Signed False (dbl 1 0))),
      (VStr ''prompt-1'', sample_object ''prompt-1'' ''Chillwave'' (Signed False 0))]"

definition sample_dj :: prompt_dj where
  "sample_dj = \<lparr>dj_prompts = sample_set, dj_dispatched = []\<rparr>"

definition nan_set :: js_map where
  "nan_set = [(VStr ''prompt-0'', sample_object ''prompt-0'' ''Bossa Nova'' NaN)]"

section \<open>Theorems\<close>

subsection \<open>The rate limiter\<close>

lemma throttle_run_refines:
  "throttle_run f d cs (closure_of l, w) =
     (case spec_rate_limiter f d cs l w of (rs, l', w') \<Rightarrow> (rs, closure_of l', w'))"
proof (induction cs arbitrary: l w)
  case Nil
  show ?case by simp
next
  case (Cons c cs)
  obtain now args where c: "c = (now, args)" by (cases c)
  show ?case
  proof (cases l)
    case None
    obtain r w' where f: "f args w = (r, w')" by (cases "f args w")
    have "closure_of (Some (now, r)) = \<lparr>lastCall = Millis now, lastResult = Some r\<rparr>"
      by simp
    with Cons.IH [of "Some (now, r)" w'] None c f show ?thesis
      by (simp add: throttle_def split: prod.splits)
  next
    case (Some p)
    obtain t prev where p: "p = (t, prev)" by (cases p)
    obtain r w' where f: "f args w = (r, w')" by (cases "f args w")
    show ?thesis
    proof (cases "real_of_int (now - t) \<ge> d")
      case True
      with Cons.IH [of "Some (now, r)" w'] Some p c f show ?thesis
        by (simp add: throttle_def split: prod.splits)
    next
      case False
      with Cons.IH [of "Some (t, prev)" w] Some p c show ?thesis
        by (simp add: throttle_def split: prod.splits)
    qed
  qed
qed

text \<open>
  C3. For every function \<open>f\<close>, interval \<open>d\<close> and sequence of timestamped invocations of
  the wrapper \<open>throttle f d\<close>, started from the fresh closure: the results handed
  back, the executions of \<open>f\<close> (its effect on the world) and the closure's variables
  are those of the contract: \<open>f\<close> runs exactly at the invocations that come at least
  \<open>d\<close> milliseconds after the last executed one (the only ones that move the
  timestamp), and every other invocation returns what the last executed one computed.
\<close>

theorem throttle_meets_contract:
  "throttle_run f d cs (throttle_init, w) =
     (case spec_rate_limiter f d cs None w of (rs, l, w') \<Rightarrow> (rs, closure_of l, w'))"
  using throttle_run_refines [of f d cs None w] by (simp add: throttle_init_def)

text \<open>
  C9. The first invocation of a fresh wrapper executes \<open>f\<close> whatever the clock and the
  delay are, returns the result of that execution (not the undefined initial
  \<^verbatim>\<open>lastResult\<close>) and records the time.
\<close>

theorem throttle_first_call_executes:
  "throttle f d now args (throttle_init, w) =
     (Some (fst (f args w)),
      \<lparr>lastCall = Millis now, lastResult = Some (fst (f args w))\<rparr>,
      snd (f args w))"
  by (simp add: throttle_def throttle_init_def split: prod.splits)


subsection \<open>Addition and order of doubles\<close>

lemma dropped_bits_upper: "n < 2 ^ (53 + dropped_bits n)"
proof (cases "n = 0")
  case True
  then show ?thesis by simp
next
  case False
  then have "n < 2 ^ floorlog 2 n" using floorlog_bounds [of n 2] by simp
  also have "(2::nat) ^ floorlog 2 n \<le> 2 ^ (53 + dropped_bits n)"
    by (rule power_increasing) (simp_all add: dropped_bits_def)
  finally show ?thesis .
qed

lemma dropped_bits_lower:
  assumes "0 < dropped_bits n"
  shows "2 ^ (52 + dropped_bits n) \<le> n"
proof -
  from assms have f: "floorlog 2 n = 53 + dropped_bits n" by (simp add: dropped_bits_def)
  then have "n > 0" by (cases "n = 0") (simp_all add: floorlog_def)
  then have "2 ^ (floorlog 2 n - 1) \<le> n" using floorlog_bounds [of n 2] by simp
  with f show ?thesis by simp
qed

lemma pow_dvd_mantissa:
  assumes "m \<le> 2 ^ 53"
  shows "2 ^ dropped_bits (m * 2 ^ k) dvd m * 2 ^ k"
proof (cases "m = 0")
  case True
  then show ?thesis by simp
next
  case False
  then have fl: "floorlog 2 (m * 2 ^ k) = floorlog 2 m + k" by simp
  show ?thesis
  proof (cases "m = 2 ^ 53")
    case True
    have "floorlog 2 ((2::nat) ^ 53) = 54"
      using floorlog_power [of 1 2 53] by (simp add: floorlog_def)
    with True fl have "dropped_bits (m * 2 ^ k) = Suc k" by (simp add: dropped_bits_def)
    moreover have "(2::nat) ^ Suc k dvd 2 ^ 53 * 2 ^ k" by simp
    ultimately show ?thesis using True by simp
  next
    case False
    with assms have "m < 2 ^ 53" by simp
    then have "floorlog 2 m \<le> 53" by (simp add: floorlog_le_iff)
    with fl have "dropped_bits (m * 2 ^ k) \<le> k" by (simp add: dropped_bits_def)
    then have "(2::nat) ^ dropped_bits (m * 2 ^ k) dvd 2 ^ k" by (rule le_imp_power_dvd)
    then show ?thesis by (rule dvd_mult)
  qed
qed

lemma quotient_bound: "n div 2 ^ dropped_bits n < 2 ^ 53"
proof -
  have "n < 2 ^ 53 * 2 ^ dropped_bits n"
    using dropped_bits_upper [of n] by (simp add: power_add)
  then show ?thesis by (simp add: less_mult_imp_div_less)
qed

lemma nearest_form: "\<exists>m\<le>2 ^ 53. nearest n = m * 2 ^ dropped_bits n"
proof -
  have "n div 2 ^ dropped_bits n + 1 \<le> 2 ^ 53" using quotient_bound [of n] by simp
  moreover have "n div 2 ^ dropped_bits n \<le> 2 ^ 53" using quotient_bound [of n] by simp
  ultimately show ?thesis by (auto simp: nearest_def Let_def)
qed

lemma nearest_fits: "nearest n mod 2 ^ dropped_bits (nearest n) = 0"
proof -
  from nearest_form obtain m where "m \<le> 2 ^ 53" and "nearest n = m * 2 ^ dropped_bits n" by blast
  with pow_dvd_mantissa [of m "dropped_bits n"] show ?thesis by (simp add: mod_eq_0_iff_dvd)
qed

lemma units_to_double:
  "units (to_double n) = (if nearest n < 2 ^ 2098 then Some (nearest n) else None)"
  by (simp add: to_double_def Double_inverse representable_def nearest_fits)

lemma nearest_exact:
  assumes "n mod 2 ^ dropped_bits n = 0"
  shows "nearest n = n"
proof -
  from assms have "2 ^ dropped_bits n dvd n" by (simp add: mod_eq_0_iff_dvd)
  then have "n div 2 ^ dropped_bits n * 2 ^ dropped_bits n = n" by (rule dvd_div_mult_self)
  with assms show ?thesis by (simp add: nearest_def Let_def)
qed

lemma nearest_ge_quotient: "n div 2 ^ dropped_bits n * 2 ^ dropped_bits n \<le> nearest n"
  by (simp add: nearest_def Let_def)

lemma nearest_ge:
  assumes a: "a mod 2 ^ dropped_bits a = 0" and le: "a \<le> n"
  shows "a \<le> nearest n"
proof (cases "2 ^ dropped_bits n dvd a")
  case True
  then obtain c where c: "a = c * 2 ^ dropped_bits n" by (auto simp: dvd_def)
  with le have "c \<le> n div 2 ^ dropped_bits n"
    by (simp add: less_eq_div_iff_mult_less_eq)
  then have "a \<le> n div 2 ^ dropped_bits n * 2 ^ dropped_bits n" using c by simp
  also note nearest_ge_quotient
  finally show ?thesis .
next
  case False
  from a have "2 ^ dropped_bits a dvd a" by (simp add: mod_eq_0_iff_dvd)
  with False have "\<not> dropped_bits n \<le> dropped_bits a"
    using le_imp_power_dvd [of "dropped_bits n" "dropped_bits a" "2::nat"] dvd_trans by blast
  then have lt: "dropped_bits a < dropped_bits n" by simp
  then have pos: "0 < dropped_bits n" by simp
  have "a < 2 ^ (53 + dropped_bits a)" by (rule dropped_bits_upper)
  also have "(2::nat) ^ (53 + dropped_bits a) \<le> 2 ^ (52 + dropped_bits n)"
    using lt by (intro power_increasing) simp_all
  finally have a_lt: "a < 2 ^ (52 + dropped_bits n)" .
  have "(2::nat) ^ 52 \<le> n div 2 ^ dropped_bits n"
    using dropped_bits_lower [OF pos] by (simp add: less_eq_div_iff_mult_less_eq power_add)
  then have "(2::nat) ^ 52 * 2 ^ dropped_bits n \<le> n div 2 ^ dropped_bits n * 2 ^ dropped_bits n"
    by simp
  also note nearest_ge_quotient
  finally have "2 ^ (52 + dropped_bits n) \<le> nearest n" by (simp add: power_add)
  with a_lt show ?thesis by simp
qed

lemma units_fits: "units a = Some x \<Longrightarrow> x mod 2 ^ dropped_bits x = 0"
  using units [of a] by (simp add: representable_def)

lemma zero_least: "(0::double) \<le> a"
  by (simp add: less_eq_double_def zero_double_def Double_inverse representable_def
        split: option.splits)

lemma add_ge_left: "(a::double) \<le> a + b"
proof (cases "units a")
  case None
  then show ?thesis by (simp add: less_eq_double_def plus_double_def Double_inverse)
next
  case (Some x)
  show ?thesis
  proof (cases "units b")
    case None
    with Some show ?thesis by (simp add: less_eq_double_def plus_double_def Double_inverse)
  next
    case (Some y)
    have "x \<le> nearest (x + y)" by (rule nearest_ge [OF units_fits [OF \<open>units a = Some x\<close>]]) simp
    with Some \<open>units a = Some x\<close> show ?thesis
      by (simp add: less_eq_double_def plus_double_def units_to_double)
  qed
qed

lemma add_ge_right: "(b::double) \<le> a + b"
proof (cases "units a")
  case None
  then show ?thesis by (simp add: less_eq_double_def plus_double_def Double_inverse)
next
  case (Some x)
  show ?thesis
  proof (cases "units b")
    case None
    with Some show ?thesis by (simp add: less_eq_double_def plus_double_def Double_inverse)
  next
    case (Some y)
    have "y \<le> nearest (x + y)" by (rule nearest_ge [OF units_fits [OF \<open>units b = Some y\<close>]]) simp
    with Some \<open>units a = Some x\<close> show ?thesis
      by (simp add: less_eq_double_def plus_double_def units_to_double)
  qed
qed


lemma units_dbl:
  assumes "m \<le> 2 ^ 53" and "m * 2 ^ nat (e + 1074) < 2 ^ 2098"
  shows "units (dbl m e) = Some (m * 2 ^ nat (e + 1074))"
proof -
  have "nearest (m * 2 ^ nat (e + 1074)) = m * 2 ^ nat (e + 1074)"
    using pow_dvd_mantissa [OF assms(1)] by (intro nearest_exact) (simp add: mod_eq_0_iff_dvd)
  with assms(2) show ?thesis by (simp add: dbl_def units_to_double)
qed

lemma units_plus:
  assumes "units a = Some x" and "units b = Some y"
  shows "units (a + b) = (if nearest (x + y) < 2 ^ 2098 then Some (nearest (x + y)) else None)"
  using assms by (simp add: plus_double_def units_to_double)

lemma less_units:
  assumes "units a = Some x" and "units b = Some y"
  shows "(a < b) = (x < y)" and "(a \<le> b) = (x \<le> y)" and "(a = b) = (x = y)"
  using assms by (auto simp: less_double_def less_eq_double_def units_inject [symmetric])

lemma units_zero: "units 0 = Some 0"
  by (simp add: zero_double_def Double_inverse representable_def)

lemma nearest_scaled:
  assumes lo: "2 ^ (52 + k) \<le> M" and hi: "M < 2 ^ (53 + k)"
  shows "nearest (M * 2 ^ j) =
           (if 2 * (M mod 2 ^ k) < 2 ^ k then M div 2 ^ k
            else if 2 ^ k < 2 * (M mod 2 ^ k) then M div 2 ^ k + 1
            else if even (M div 2 ^ k) then M div 2 ^ k else M div 2 ^ k + 1) * 2 ^ (k + j)"
proof -
  from lo have pos: "0 < M" by (cases "M = 0") simp_all
  have "floorlog 2 M \<le> 53 + k" using hi by (simp add: floorlog_le_iff)
  moreover have "53 + k \<le> floorlog 2 M" using lo by (intro floorlog_geI) simp_all
  ultimately have "floorlog 2 M = 53 + k" by simp
  with pos have d: "dropped_bits (M * 2 ^ j) = k + j" by (simp add: dropped_bits_def)
  have q: "M * 2 ^ j div 2 ^ (k + j) = M div 2 ^ k"
    by (simp add: power_add mult.commute [of "2 ^ k"])
  have r: "M * 2 ^ j mod 2 ^ (k + j) = M mod 2 ^ k * 2 ^ j"
    by (simp add: power_add mult.commute [of "2 ^ k"] mult_mod_left)
  have c1: "(2 * (M mod 2 ^ k * 2 ^ j) < 2 ^ (k + j)) = (2 * (M mod 2 ^ k) < 2 ^ k)"
    by (simp add: power_add)
  have c2: "(2 ^ (k + j) < 2 * (M mod 2 ^ k * 2 ^ j)) = (2 ^ k < 2 * (M mod 2 ^ k))"
    by (simp add: power_add)
  show ?thesis
    unfolding nearest_def Let_def d q r c1 c2 ..
qed

lemma sample_sum_1:
  "dbl 2 0 + dbl 4683743612465316 (-54) = dbl 5089067578928660 (-51)"
proof -
  have a: "units (dbl 2 0) = Some (2 * 2 ^ nat (0 + 1074))" by (rule units_dbl) simp_all
  have b: "units (dbl 4683743612465316 (-54)) = Some (4683743612465316 * 2 ^ nat (- 54 + 1074))"
    by (rule units_dbl) simp_all
  have c: "units (dbl 5089067578928660 (-51)) = Some (5089067578928660 * 2 ^ nat (- 51 + 1074))"
    by (rule units_dbl) simp_all
  have n: "2 * 2 ^ nat (0 + 1074) + 4683743612465316 * 2 ^ nat (- 54 + 1074)
             = (2 ^ 55 + 4683743612465316) * (2::nat) ^ 1020"
    by simp
  have "nearest ((2 ^ 55 + 4683743612465316) * (2::nat) ^ 1020) = 5089067578928660 * 2 ^ 1023"
    by (subst nearest_scaled [where k = 3]) simp_all
  with a b c n show ?thesis
    by (simp add: units_inject [symmetric] units_plus del: One_nat_def)
qed

lemma units_infinity: "units PosInfinity = None"
  by (simp add: PosInfinity_def Double_inverse)

lemma infinity_iff: "(a = PosInfinity) = (units a = None)"
  by (simp add: units_inject [symmetric] units_infinity)

lemma zero_not_infinity: "(0::double) \<noteq> PosInfinity"
  by (simp add: infinity_iff units_zero)

lemma not_less_zero: "\<not> a < (0::double)"
  using zero_least [of a] by (simp add: not_less)

lemma zero_add: "0 + a = (a::double)"
proof (cases "units a")
  case None
  then show ?thesis by (simp add: plus_double_def units_zero units_inject [symmetric] Double_inverse)
next
  case (Some x)
  then have "nearest x = x" "x < 2 ^ 2098"
    using units [of a] by (simp_all add: nearest_exact representable_def)
  with Some show ?thesis
    by (simp add: plus_double_def units_zero units_inject [symmetric] units_to_double)
qed

lemma add_nonzero: "a \<noteq> 0 \<Longrightarrow> a + b \<noteq> (0::double)"
proof
  assume "a \<noteq> 0" and "a + b = 0"
  with add_ge_left [of a b] have "a \<le> 0" by simp
  with zero_least [of a] have "a = 0" by simp
  with \<open>a \<noteq> 0\<close> show False by simp
qed

lemma add_nonzero_right: "b \<noteq> 0 \<Longrightarrow> a + b \<noteq> (0::double)"
proof
  assume "b \<noteq> 0" and "a + b = 0"
  with add_ge_right [of b a] have "b \<le> 0" by simp
  with zero_least [of b] have "b = 0" by simp
  with \<open>b \<noteq> 0\<close> show False by simp
qed

lemma units_seconds: "m \<le> 2 ^ 53 \<Longrightarrow> units (dbl m 0) = Some (m * 2 ^ 1074)"
proof -
  assume m: "m \<le> 2 ^ 53"
  then have "m * 2 ^ 1074 \<le> 2 ^ 53 * (2::nat) ^ 1074" by (rule mult_right_mono) simp
  also have "\<dots> < 2 ^ 2098" by (simp add: power_add [symmetric])
  finally show ?thesis using units_dbl [OF m, of 0] by simp
qed

lemma seconds_less: "m \<le> 2 ^ 53 \<Longrightarrow> n \<le> 2 ^ 53 \<Longrightarrow> (dbl m 0 < dbl n 0) = (m < n)"
  using less_units(1) [OF units_seconds units_seconds, of m n] by simp

lemma seconds_eq: "m \<le> 2 ^ 53 \<Longrightarrow> n \<le> 2 ^ 53 \<Longrightarrow> (dbl m 0 = dbl n 0) = (m = n)"
  using less_units(3) [OF units_seconds units_seconds, of m n] by simp

lemma seconds_zero: "m \<le> 2 ^ 53 \<Longrightarrow> (dbl m 0 = 0) = (m = 0)"
  using less_units(3) [OF units_seconds units_zero, of m] by simp

lemma seconds_finite: "m \<le> 2 ^ 53 \<Longrightarrow> dbl m 0 \<noteq> PosInfinity"
  by (simp add: infinity_iff units_seconds)

lemma seconds_add: "m + n \<le> 2 ^ 53 \<Longrightarrow> dbl m 0 + dbl n 0 = dbl (m + n) 0"
proof -
  assume s: "m + n \<le> 2 ^ 53"
  then have "m \<le> 2 ^ 53" "n \<le> 2 ^ 53" by simp_all
  then have "dbl m 0 + dbl n 0 = to_double (m * 2 ^ 1074 + n * 2 ^ 1074)"
    by (simp add: plus_double_def units_seconds)
  also have "\<dots> = dbl (m + n) 0" by (simp add: dbl_def distrib_right)
  finally show ?thesis .
qed

lemma sample_sum_2:
  "dbl 5089067578928660 (-51) + dbl 4683743612465316 (-54) = dbl 5674535530486824 (-51)"
proof -
  have a: "units (dbl 5089067578928660 (-51)) = Some (5089067578928660 * 2 ^ nat (- 51 + 1074))"
    by (rule units_dbl) simp_all
  have b: "units (dbl 4683743612465316 (-54)) = Some (4683743612465316 * 2 ^ nat (- 54 + 1074))"
    by (rule units_dbl) simp_all
  have c: "units (dbl 5674535530486824 (-51)) = Some (5674535530486824 * 2 ^ nat (- 51 + 1074))"
    by (rule units_dbl) simp_all
  have n: "5089067578928660 * 2 ^ nat (- 51 + 1074) + 4683743612465316 * 2 ^ nat (- 54 + 1074)
             = 45396284243894596 * (2::nat) ^ 1020"
    by simp
  have "nearest (45396284243894596 * (2::nat) ^ 1020) = 5674535530486824 * 2 ^ 1023"
    by (subst nearest_scaled [where k = 3]) simp_all
  with a b c n show ?thesis
    by (simp add: units_inject [symmetric] units_plus del: One_nat_def)
qed

lemma sample_sum_3:
  "dbl 2 0 + dbl 7205759403792794 (-56) = dbl 4728779608739021 (-51)"
proof -
  have a: "units (dbl 2 0) = Some (2 * 2 ^ nat (0 + 1074))" by (rule units_dbl) simp_all
  have b: "units (dbl 7205759403792794 (-56)) = Some (7205759403792794 * 2 ^ nat (- 56 + 1074))"
    by (rule units_dbl) simp_all
  have c: "units (dbl 4728779608739021 (-51)) = Some (4728779608739021 * 2 ^ nat (- 51 + 1074))"
    by (rule units_dbl) simp_all
  have n: "2 * 2 ^ nat (0 + 1074) + 7205759403792794 * 2 ^ nat (- 56 + 1074)
             = (2 ^ 57 + 7205759403792794) * (2::nat) ^ 1018"
    by simp
  have "nearest ((2 ^ 57 + 7205759403792794) * (2::nat) ^ 1018) = 4728779608739021 * 2 ^ 1023"
    by (subst nearest_scaled [where k = 5]) simp_all
  with a b c n show ?thesis
    by (simp add: units_inject [symmetric] units_plus del: One_nat_def)
qed

lemma sample_units:
  "units (dbl 5089067578928660 (-51)) = Some (5089067578928660 * 2 ^ 1023)"
  "units (dbl 5674535530486824 (-51)) = Some (5674535530486824 * 2 ^ 1023)"
  "units (dbl 5674535530486825 (-51)) = Some (5674535530486825 * 2 ^ 1023)"
  "units (dbl 4728779608739021 (-51)) = Some (4728779608739021 * 2 ^ 1023)"
  using units_dbl [of 5089067578928660 "-51"] units_dbl [of 5674535530486824 "-51"]
    units_dbl [of 5674535530486825 "-51"] units_dbl [of 4728779608739021 "-51"]
  by simp_all

lemma sample_order:
  "dbl 5674535530486824 (-51) < dbl 5674535530486825 (-51)"
  "\<not> dbl 5089067578928660 (-51) < 0"
  "dbl 5089067578928660 (-51) \<noteq> 0"
  "dbl 5674535530486824 (-51) \<noteq> 0"
  "dbl 4728779608739021 (-51) \<noteq> 0"
  "\<not> dbl 4728779608739021 (-51) < dbl 4728779608739021 (-51)"
  "dbl 5089067578928660 (-51) \<noteq> PosInfinity"
  "dbl 4728779608739021 (-51) \<noteq> PosInfinity"
  by (simp_all add: less_units(1) [OF sample_units(2) sample_units(3)] not_less_zero
        less_units(3) [OF sample_units(1) units_zero] less_units(3) [OF sample_units(2) units_zero]
        less_units(3) [OF sample_units(4) units_zero] infinity_iff sample_units)

subsection \<open>The scheduler\<close>

lemma bufferTime_nonzero: "bufferTime \<noteq> 0"
  by (simp add: bufferTime_def seconds_zero)

lemma target_start_nonzero: "target_start now s \<noteq> 0"
  by (simp add: target_start_def add_nonzero_right bufferTime_nonzero)

text \<open>
  C1. A chunk handled while the playback state is neither paused nor stopped, whose
  target start time (\<^verbatim>\<open>nextStartTime\<close> after step 3) is behind the audio clock:
  the state becomes loading (with its event), \<^verbatim>\<open>nextStartTime\<close> is reset to 0 and
  nothing else changes; in particular no buffer is started.
\<close>

theorem underrun_unprimes_and_drops:
  assumes "playbackState s \<noteq> Paused" and "playbackState s \<noteq> Stopped"
    and "dec (chunk_data c) = Some audioBuffer"
    and "(if nextStartTime s = 0 then now + bufferTime else nextStartTime s) < now"
  shows "processAudioChunks dec now (c # rest) s =
           (None, s\<lparr>nextStartTime := 0, playbackState := Loading,
                     dispatched := dispatched s @ [PlaybackStateChanged Loading]\<rparr>)"
proof (cases "nextStartTime s = 0")
  case True
  with assms(4) have "now + bufferTime < now" by simp
  with add_ge_left [of now bufferTime] show ?thesis by simp
next
  case False
  with assms show ?thesis
    by (simp add: processAudioChunks_def setPlaybackState_def dispatchEvent_def)
qed

theorem underrun_unprimes_and_drops_witness:
  "playbackState (helper_new\<lparr>playbackState := Playing, nextStartTime := dbl 4 0\<rparr>) \<noteq> Paused
   \<and> playbackState (helper_new\<lparr>playbackState := Playing, nextStartTime := dbl 4 0\<rparr>) \<noteq> Stopped
   \<and> sample_decoder (chunk_data (sample_chunk ''a'')) = Some \<lparr>duration = dbl 1 0\<rparr>
   \<and> dbl 4 0 \<noteq> 0 \<and> dbl 4 0 < dbl 5 0
   \<and> processAudioChunks sample_decoder (dbl 5 0) [sample_chunk ''a'']
        (helper_new\<lparr>playbackState := Playing, nextStartTime := dbl 4 0\<rparr>) =
      (None, helper_new\<lparr>playbackState := Loading,
                         dispatched := [PlaybackStateChanged Loading]\<rparr>)"
  using underrun_unprimes_and_drops
          [of "helper_new\<lparr>playbackState := Playing, nextStartTime := dbl 4 0\<rparr>"
              sample_decoder "sample_chunk ''a''" "\<lparr>duration = dbl 1 0\<rparr>" "dbl 5 0" "[]"]
  by (simp add: helper_new_def sample_decoder_def sample_chunk_def seconds_zero seconds_less)

lemma schedules_step:
  assumes "schedules dec now chunks s"
  obtains d where "decoded_duration dec chunks = Some d"
    and "processAudioChunks dec now chunks s =
          (None, (if nextStartTime s = 0
                  then s\<lparr>nextStartTime := now + bufferTime, timeouts := timeouts s @ [bufferTime]\<rparr>
                  else s)
                 \<lparr>started := started s @ [(target_start now s, d)],
                  nextStartTime := target_start now s + d\<rparr>)"
proof -
  from assms obtain d where d: "decoded_duration dec chunks = Some d"
    by (auto simp: schedules_def split: option.splits)
  then obtain c rest b where c: "chunks = c # rest" "dec (chunk_data c) = Some b" "duration b = d"
    by (auto simp: decoded_duration_def split: list.splits)
  from assms have st: "playbackState s \<noteq> Paused" "playbackState s \<noteq> Stopped"
    and nu: "\<not> target_start now s < now" and fin: "target_start now s \<noteq> PosInfinity"
    by (simp_all add: schedules_def)
  have "processAudioChunks dec now chunks s =
          (None, (if nextStartTime s = 0
                  then s\<lparr>nextStartTime := now + bufferTime, timeouts := timeouts s @ [bufferTime]\<rparr>
                  else s)
                 \<lparr>started := started s @ [(target_start now s, d)],
                  nextStartTime := target_start now s + d\<rparr>)"
    using st nu fin c
    by (cases "nextStartTime s = 0")
       (simp_all add: processAudioChunks_def target_start_def Let_def)
  with d show thesis by (rule that)
qed

lemma schedules_fields:
  assumes "schedules dec now chunks s"
  shows "\<exists>d. decoded_duration dec chunks = Some d
          \<and> started (snd (processAudioChunks dec now chunks s)) = started s @ [(target_start now s, d)]
          \<and> nextStartTime (snd (processAudioChunks dec now chunks s)) = target_start now s + d
          \<and> target_start now s + d \<noteq> 0"
proof -
  from assms obtain d where d: "decoded_duration dec chunks = Some d"
    and p: "processAudioChunks dec now chunks s =
          (None, (if nextStartTime s = 0
                  then s\<lparr>nextStartTime := now + bufferTime, timeouts := timeouts s @ [bufferTime]\<rparr>
                  else s)
                 \<lparr>started := started s @ [(target_start now s, d)],
                  nextStartTime := target_start now s + d\<rparr>)"
    by (rule schedules_step)
  have "target_start now s + d \<noteq> 0"
    using target_start_nonzero by (rule add_nonzero)
  with d p show ?thesis by simp
qed

lemma scheduler_run_Cons:
  "scheduler_run dec (x # xs) s =
     scheduler_run dec xs (snd (processAudioChunks dec (fst x) (snd x) s))"
  by (cases x) simp

lemma all_scheduled_Cons:
  "all_scheduled dec (x # xs) s =
     (schedules dec (fst x) (snd x) s \<and>
      all_scheduled dec xs (snd (processAudioChunks dec (fst x) (snd x) s)))"
  by (cases x) simp

lemma expected_starts_Cons:
  "expected_starts dec (x # xs) s =
     (target_start (fst x) s, (case decoded_duration dec (snd x) of None \<Rightarrow> 0 | Some d \<Rightarrow> d))
       # expected_starts dec xs (snd (processAudioChunks dec (fst x) (snd x) s))"
  by (cases x) simp

lemma scheduler_run_append:
  "scheduler_run dec (xs @ ys) s = scheduler_run dec ys (scheduler_run dec xs s)"
  by (induction xs arbitrary: s) auto

lemma all_scheduled_append:
  "all_scheduled dec (xs @ ys) s =
     (all_scheduled dec xs s \<and> all_scheduled dec ys (scheduler_run dec xs s))"
  by (induction xs arbitrary: s) auto

lemma expected_starts_append:
  "expected_starts dec (xs @ ys) s =
     expected_starts dec xs s @ expected_starts dec ys (scheduler_run dec xs s)"
  by (induction xs arbitrary: s) auto

lemma length_expected_starts: "length (expected_starts dec xs s) = length xs"
  by (induction xs arbitrary: s) auto

lemma started_scheduler_run:
  "all_scheduled dec xs s \<Longrightarrow>
     started (scheduler_run dec xs s) = started s @ expected_starts dec xs s"
proof (induction xs arbitrary: s)
  case Nil
  show ?case by simp
next
  case (Cons x xs)
  obtain now chunks where x: "x = (now, chunks)" by (cases x)
  from Cons.prems x have sch: "schedules dec now chunks s"
    and rest: "all_scheduled dec xs (snd (processAudioChunks dec now chunks s))"
    by simp_all
  from schedules_fields [OF sch] obtain d where
    "decoded_duration dec chunks = Some d"
    "started (snd (processAudioChunks dec now chunks s)) = started s @ [(target_start now s, d)]"
    by blast
  with Cons.IH [OF rest] x show ?case by simp
qed

lemma scheduler_split:
  assumes "i < length xs"
  shows "xs = take i xs @ (fst (xs ! i), snd (xs ! i)) # drop (Suc i) xs"
  using assms by (simp add: id_take_nth_drop)

lemma scheduled_at:
  assumes "all_scheduled dec xs s" and "i < length xs"
  shows "schedules dec (fst (xs ! i)) (snd (xs ! i)) (scheduler_run dec (take i xs) s)"
proof -
  from assms(1) scheduler_split [OF assms(2)]
  have "all_scheduled dec (take i xs @ (fst (xs ! i), snd (xs ! i)) # drop (Suc i) xs) s"
    by simp
  then show ?thesis by (simp add: all_scheduled_append all_scheduled_Cons)
qed

lemma scheduler_run_take_Suc:
  assumes "i < length xs"
  shows "scheduler_run dec (take (Suc i) xs) s =
           snd (processAudioChunks dec (fst (xs ! i)) (snd (xs ! i)) (scheduler_run dec (take i xs) s))"
proof -
  have "take (Suc i) xs = take i xs @ [(fst (xs ! i), snd (xs ! i))]"
    using assms by (simp add: take_Suc_conv_app_nth)
  then show ?thesis by (simp add: scheduler_run_append scheduler_run_Cons)
qed

lemma expected_starts_nth:
  assumes "i < length xs"
  shows "expected_starts dec xs s ! i =
           (target_start (fst (xs ! i)) (scheduler_run dec (take i xs) s),
            (case decoded_duration dec (snd (xs ! i)) of None \<Rightarrow> 0 | Some d \<Rightarrow> d))"
proof -
  have "expected_starts dec xs s =
          expected_starts dec (take i xs @ (fst (xs ! i), snd (xs ! i)) # drop (Suc i) xs) s"
    using scheduler_split [OF assms] by simp
  also have "\<dots> ! i = (target_start (fst (xs ! i)) (scheduler_run dec (take i xs) s),
            (case decoded_duration dec (snd (xs ! i)) of None \<Rightarrow> 0 | Some d \<Rightarrow> d))"
    using assms
    by (simp add: expected_starts_append nth_append length_expected_starts expected_starts_Cons)
  finally show ?thesis .
qed

text \<open>
  C2. For every sequence of chunks, each handled while the state is neither paused
  nor stopped, decoded, and started without taking the underrun branch: every chunk
  adds one started buffer; the buffer starts exactly at the \<^verbatim>\<open>nextStartTime\<close> of that
  moment (the primed one) and \<^verbatim>\<open>nextStartTime\<close> then is that start plus the buffer's
  duration; so each start is the previous start plus the previous duration, and the
  starts never decrease. The sums are those of the code: sums of doubles, rounded.
\<close>

theorem chunks_scheduled_back_to_back:
  assumes "all_scheduled dec inputs s"
  defines "new \<equiv> drop (length (started s)) (started (scheduler_run dec inputs s))"
  shows "started (scheduler_run dec inputs s) = started s @ new
       \<and> length new = length inputs
       \<and> (\<forall>i<length inputs.
             fst (new ! i) = target_start (fst (inputs ! i)) (scheduler_run dec (take i inputs) s)
           \<and> Some (snd (new ! i)) = decoded_duration dec (snd (inputs ! i))
           \<and> nextStartTime (scheduler_run dec (take (Suc i) inputs) s) = fst (new ! i) + snd (new ! i))
       \<and> (\<forall>i. Suc i < length new \<longrightarrow>
             fst (new ! Suc i) = fst (new ! i) + snd (new ! i) \<and> fst (new ! i) \<le> fst (new ! Suc i))"
proof -
  have new: "new = expected_starts dec inputs s"
    unfolding new_def using started_scheduler_run [OF assms(1)] by simp
  have a: "started (scheduler_run dec inputs s) = started s @ new"
    using started_scheduler_run [OF assms(1)] new by simp
  have b: "length new = length inputs"
    by (simp add: new length_expected_starts)
  have step: "fst (new ! i) = target_start (fst (inputs ! i)) (scheduler_run dec (take i inputs) s)
           \<and> Some (snd (new ! i)) = decoded_duration dec (snd (inputs ! i))
           \<and> nextStartTime (scheduler_run dec (take (Suc i) inputs) s) = fst (new ! i) + snd (new ! i)
           \<and> fst (new ! i) + snd (new ! i) \<noteq> 0"
    if i: "i < length inputs" for i
  proof -
    let ?si = "scheduler_run dec (take i inputs) s"
    from schedules_fields [OF scheduled_at [OF assms(1) i]] obtain d where
      d: "decoded_duration dec (snd (inputs ! i)) = Some d"
      and n: "nextStartTime (snd (processAudioChunks dec (fst (inputs ! i)) (snd (inputs ! i)) ?si))
                = target_start (fst (inputs ! i)) ?si + d"
      and p: "target_start (fst (inputs ! i)) ?si + d \<noteq> 0"
      by blast
    from expected_starts_nth [OF i, of dec s] d new
    have e: "new ! i = (target_start (fst (inputs ! i)) ?si, d)" by simp
    with d n p scheduler_run_take_Suc [OF i, of dec s] show ?thesis by simp
  qed
  have chain: "fst (new ! Suc i) = fst (new ! i) + snd (new ! i) \<and> fst (new ! i) \<le> fst (new ! Suc i)"
    if i: "Suc i < length new" for i
  proof -
    from i b have i0: "i < length inputs" and i1: "Suc i < length inputs" by simp_all
    from step [OF i0] have n: "nextStartTime (scheduler_run dec (take (Suc i) inputs) s) = fst (new ! i) + snd (new ! i)"
      and pos: "fst (new ! i) + snd (new ! i) \<noteq> 0" by blast+
    from step [OF i1] have "fst (new ! Suc i) = target_start (fst (inputs ! Suc i)) (scheduler_run dec (take (Suc i) inputs) s)"
      by simp
    also have "\<dots> = fst (new ! i) + snd (new ! i)"
      using n pos by (simp add: target_start_def)
    finally show ?thesis using add_ge_left [of "fst (new ! i)" "snd (new ! i)"] by simp
  qed
  have c: "\<forall>i<length inputs.
             fst (new ! i) = target_start (fst (inputs ! i)) (scheduler_run dec (take i inputs) s)
           \<and> Some (snd (new ! i)) = decoded_duration dec (snd (inputs ! i))
           \<and> nextStartTime (scheduler_run dec (take (Suc i) inputs) s) = fst (new ! i) + snd (new ! i)"
    using step by blast
  have d: "\<forall>i. Suc i < length new \<longrightarrow>
             fst (new ! Suc i) = fst (new ! i) + snd (new ! i) \<and> fst (new ! i) \<le> fst (new ! Suc i)"
    using chain by blast
  show ?thesis by (rule conjI [OF a conjI [OF b conjI [OF c d]]])
qed

theorem chunks_scheduled_back_to_back_witness:
  "all_scheduled sample_decoder [(0, [sample_chunk ''a'']), (dbl 1 0, [sample_chunk ''b''])]
     (helper_new\<lparr>playbackState := Loading\<rparr>)
   \<and> started (scheduler_run sample_decoder [(0, [sample_chunk ''a'']), (dbl 1 0, [sample_chunk ''b''])]
        (helper_new\<lparr>playbackState := Loading\<rparr>)) = [(dbl 2 0, dbl 1 0), (dbl 3 0, dbl 3 0)]"
proof -
  have h: "all_scheduled sample_decoder [(0, [sample_chunk ''a'']), (dbl 1 0, [sample_chunk ''b''])]
     (helper_new\<lparr>playbackState := Loading\<rparr>)"
    by (simp add: schedules_def decoded_duration_def target_start_def helper_new_def
          bufferTime_def processAudioChunks_def sample_decoder_def sample_chunk_def
          zero_add not_less_zero seconds_finite seconds_add seconds_zero seconds_less)
  from chunks_scheduled_back_to_back [OF h]
  have "started (scheduler_run sample_decoder [(0, [sample_chunk ''a'']), (dbl 1 0, [sample_chunk ''b''])]
          (helper_new\<lparr>playbackState := Loading\<rparr>)) =
        started (helper_new\<lparr>playbackState := Loading\<rparr>) @
        drop (length (started (helper_new\<lparr>playbackState := Loading\<rparr>)))
          (started (scheduler_run sample_decoder [(0, [sample_chunk ''a'']), (dbl 1 0, [sample_chunk ''b''])]
             (helper_new\<lparr>playbackState := Loading\<rparr>)))"
    by blast
  moreover have "started (scheduler_run sample_decoder [(0, [sample_chunk ''a'']), (dbl 1 0, [sample_chunk ''b''])]
          (helper_new\<lparr>playbackState := Loading\<rparr>)) = [(dbl 2 0, dbl 1 0), (dbl 3 0, dbl 3 0)]"
    by (simp add: helper_new_def bufferTime_def processAudioChunks_def sample_decoder_def
          sample_chunk_def zero_add not_less_zero seconds_finite seconds_add seconds_zero seconds_less)
  ultimately show ?thesis using h by simp
qed

text \<open>
  Two runs in which rounding decides. Buffers of \<^verbatim>\<open>0.26\<close> s, handled at clock
  readings 0, 0 and \<^verbatim>\<open>2.52\<close>: the second buffer starts at \<^verbatim>\<open>2.26\<close>, and the sum
  \<^verbatim>\<open>2.26 + 0.26\<close> is the double just below \<^verbatim>\<open>2.52\<close>, so the third chunk underruns.
  Buffers of \<^verbatim>\<open>0.1\<close> s at clock readings 0 and \<^verbatim>\<open>2.1\<close>: the sum \<^verbatim>\<open>2 + 0.1\<close> is the
  double \<^verbatim>\<open>2.1\<close>, so the second chunk is started. Here \<^verbatim>\<open>0.26\<close> is
  \<open>4683743612465316 \<times> 2\<^sup>-\<^sup>5\<^sup>4\<close>, \<^verbatim>\<open>2.26\<close> is \<open>5089067578928660 \<times> 2\<^sup>-\<^sup>5\<^sup>1\<close>, \<^verbatim>\<open>2.52\<close> is
  \<open>5674535530486825 \<times> 2\<^sup>-\<^sup>5\<^sup>1\<close>, \<^verbatim>\<open>0.1\<close> is \<open>7205759403792794 \<times> 2\<^sup>-\<^sup>5\<^sup>6\<close> and \<^verbatim>\<open>2.1\<close> is
  \<open>4728779608739021 \<times> 2\<^sup>-\<^sup>5\<^sup>1\<close>.
\<close>

lemma rounded_sum_underruns:
  "scheduler_run (constant_decoder (dbl 4683743612465316 (-54)))
     [(0, [sample_chunk ''x'']), (0, [sample_chunk ''x'']),
      (dbl 5674535530486825 (-51), [sample_chunk ''x''])]
     (helper_new\<lparr>playbackState := Loading\<rparr>) =
   helper_new\<lparr>playbackState := Loading,
              dispatched := [PlaybackStateChanged Loading],
              timeouts := [bufferTime],
              started := [(dbl 2 0, dbl 4683743612465316 (-54)),
                          (dbl 5089067578928660 (-51), dbl 4683743612465316 (-54))]\<rparr>"
  by (simp add: helper_new_def bufferTime_def processAudioChunks_def constant_decoder_def
        sample_chunk_def setPlaybackState_def dispatchEvent_def zero_add not_less_zero
        seconds_finite seconds_zero sample_sum_1 sample_sum_2 sample_order)

lemma rounded_sum_is_on_time:
  "scheduler_run (constant_decoder (dbl 7205759403792794 (-56)))
     [(0, [sample_chunk ''x'']), (dbl 4728779608739021 (-51), [sample_chunk ''x''])]
     (helper_new\<lparr>playbackState := Loading\<rparr>) =
   helper_new\<lparr>playbackState := Loading,
              timeouts := [bufferTime],
              started := [(dbl 2 0, dbl 7205759403792794 (-56)),
                          (dbl 4728779608739021 (-51), dbl 7205759403792794 (-56))],
              nextStartTime := dbl 4728779608739021 (-51) + dbl 7205759403792794 (-56)\<rparr>"
  by (simp add: helper_new_def bufferTime_def processAudioChunks_def constant_decoder_def
        sample_chunk_def zero_add not_less_zero seconds_finite seconds_zero sample_sum_3
        sample_order)

subsection \<open>Prompt updates\<close>

lemma no_active:
  "(\<forall>p\<in>set (map snd ps). weight p = 0 \<or> ptext p \<in> filteredPrompts s)
     \<longleftrightarrow> activePrompts (s\<lparr>prompts := ps\<rparr>) = []"
  by (auto simp: activePrompts_def filter_empty_conv)

lemma swp_executed:
  assumes "timeSinceLastCall_ge now (lastCall (swpThrottle s)) 200"
  shows "setWeightedPrompts now reject ps s =
           (snd (setWeightedPrompts_body reject ps s))
             \<lparr>swpThrottle := \<lparr>lastCall = Millis now, lastResult = Some ()\<rparr>\<rparr>"
  using assms by (simp add: setWeightedPrompts_def throttle_def split: prod.splits)

lemma swp_dropped:
  assumes "\<not> timeSinceLastCall_ge now (lastCall (swpThrottle s)) 200"
  shows "setWeightedPrompts now reject ps s = s"
  using assms by (simp add: setWeightedPrompts_def throttle_def)

lemma body_no_active:
  assumes "activePrompts (s\<lparr>prompts := ps\<rparr>) = []"
  shows "snd (setWeightedPrompts_body reject ps s) =
           pause (dispatchEvent (ErrorEvent ''There needs to be one active prompt to play.'')
                   (s\<lparr>prompts := ps\<rparr>))"
  using assms by (simp add: setWeightedPrompts_body_def)

lemma pause_fields:
  "playbackState (pause s) = Paused"
  "dispatched (pause s) = dispatched s @ [PlaybackStateChanged Paused]"
  "prompts (pause s) = prompts s"
  "filteredPrompts (pause s) = filteredPrompts s"
  "nextStartTime (pause s) = 0"
  by (simp_all add: pause_def setPlaybackState_def dispatchEvent_def callSession_def split: option.splits)

lemma setPlaybackState_fields:
  "session (setPlaybackState st s) = session s"
  "sessionPromise (setPlaybackState st s) = sessionPromise s"
  "connects (setPlaybackState st s) = connects s"
  "filteredPrompts (setPlaybackState st s) = filteredPrompts s"
  "playbackState (setPlaybackState st s) = st"
  "nextStartTime (setPlaybackState st s) = nextStartTime s"
  "prompts (setPlaybackState st s) = prompts s"
  "swpThrottle (setPlaybackState st s) = swpThrottle s"
  by (simp_all add: setPlaybackState_def dispatchEvent_def)

lemma callSession_fields:
  "session (callSession c s) = session s"
  "sessionPromise (callSession c s) = sessionPromise s"
  "connects (callSession c s) = connects s"
  "filteredPrompts (callSession c s) = filteredPrompts s"
  "playbackState (callSession c s) = playbackState s"
  "nextStartTime (callSession c s) = nextStartTime s"
  "prompts (callSession c s) = prompts s"
  "swpThrottle (callSession c s) = swpThrottle s"
  by (simp_all add: callSession_def split: option.splits)

lemma dispatchEvent_fields:
  "session (dispatchEvent e s) = session s"
  "sessionPromise (dispatchEvent e s) = sessionPromise s"
  "connects (dispatchEvent e s) = connects s"
  "filteredPrompts (dispatchEvent e s) = filteredPrompts s"
  "playbackState (dispatchEvent e s) = playbackState s"
  "nextStartTime (dispatchEvent e s) = nextStartTime s"
  "prompts (dispatchEvent e s) = prompts s"
  "swpThrottle (dispatchEvent e s) = swpThrottle s"
  by (simp_all add: dispatchEvent_def)

lemma pause_keeps:
  "session (pause s) = session s"
  "sessionPromise (pause s) = sessionPromise s"
  "connects (pause s) = connects s"
  "swpThrottle (pause s) = swpThrottle s"
  by (simp_all add: pause_def setPlaybackState_fields callSession_fields)

lemma stop_fields:
  "session (stop s) = None"
  "sessionPromise (stop s) = None"
  "nextStartTime (stop s) = 0"
  "playbackState (stop s) = Stopped"
  "connects (stop s) = connects s"
  "filteredPrompts (stop s) = filteredPrompts s"
  "prompts (stop s) = prompts s"
  "swpThrottle (stop s) = swpThrottle s"
  by (simp_all add: stop_def setPlaybackState_fields callSession_fields)

lemma body_keeps:
  "session (snd (setWeightedPrompts_body reject ps s)) = session s"
  "sessionPromise (snd (setWeightedPrompts_body reject ps s)) = sessionPromise s"
  "connects (snd (setWeightedPrompts_body reject ps s)) = connects s"
  "filteredPrompts (snd (setWeightedPrompts_body reject ps s)) = filteredPrompts s"
  by (simp_all add: setWeightedPrompts_body_def Let_def pause_keeps pause_fields
        dispatchEvent_fields callSession_fields split: option.splits)

lemma setWeightedPrompts_keeps:
  "session (setWeightedPrompts now reject ps s) = session s"
  "sessionPromise (setWeightedPrompts now reject ps s) = sessionPromise s"
  "connects (setWeightedPrompts now reject ps s) = connects s"
  "filteredPrompts (setWeightedPrompts now reject ps s) = filteredPrompts s"
  by (cases "timeSinceLastCall_ge now (lastCall (swpThrottle s)) 200";
      simp add: swp_executed swp_dropped body_keeps)+

lemma processAudioChunks_keeps:
  "session (snd (processAudioChunks dec now chunks s)) = session s"
  "sessionPromise (snd (processAudioChunks dec now chunks s)) = sessionPromise s"
  "connects (snd (processAudioChunks dec now chunks s)) = connects s"
  "filteredPrompts (snd (processAudioChunks dec now chunks s)) = filteredPrompts s"
  by (simp_all add: processAudioChunks_def Let_def setPlaybackState_fields
        split: list.splits option.splits)

lemma onmessage_keeps:
  "session (snd (onmessage dec now e s)) = session s"
  "sessionPromise (snd (onmessage dec now e s)) = sessionPromise s"
  "connects (snd (onmessage dec now e s)) = connects s"
  by (simp_all add: onmessage_def Let_def processAudioChunks_keeps dispatchEvent_fields
        split: option.splits)

lemma onmessage_filtered:
  "filteredPrompts (snd (onmessage dec now e s)) =
     filteredPrompts s \<union> (case filteredPrompt e of None \<Rightarrow> {} | Some fp \<Rightarrow> {fp_text fp})"
  by (simp add: onmessage_def Let_def processAudioChunks_keeps dispatchEvent_fields
        split: option.splits)

lemma play_resume_keeps:
  "sessionPromise (snd (play_resume now reject p s)) = sessionPromise s"
  "connects (snd (play_resume now reject p s)) = connects s"
  by (simp_all add: play_resume_def Let_def setWeightedPrompts_keeps callSession_fields
        split: promise.splits option.splits)

lemma play_after_none:
  assumes "sessionPromise s = None"
  shows "connects (snd (play now ok reject s)) = Suc (connects s)"
    and "sessionPromise (snd (play now ok reject s)) =
           Some (if ok then Resolves (connects s) else Rejects)"
    and "session (snd (play now ok reject s)) = (if ok then Some (connects s) else session s)"
    and "filteredPrompts (snd (play now ok reject s)) = filteredPrompts s"
  using assms
  by (simp_all add: play_def play_begin_def play_resume_def getSession_def connect_def Let_def
        setPlaybackState_fields setWeightedPrompts_keeps callSession_fields split: option.splits)

lemma play_after_some:
  assumes "sessionPromise s = Some p"
  shows "connects (snd (play now ok reject s)) = connects s"
    and "sessionPromise (snd (play now ok reject s)) = Some p"
    and "session (snd (play now ok reject s)) = (case p of Resolves h \<Rightarrow> Some h | Rejects \<Rightarrow> session s)"
    and "filteredPrompts (snd (play now ok reject s)) = filteredPrompts s"
  using assms
  by (simp_all add: play_def play_begin_def play_resume_def getSession_def Let_def
        setPlaybackState_fields setWeightedPrompts_keeps callSession_fields
        split: option.splits promise.splits)

lemma play_filtered: "filteredPrompts (snd (play now ok reject s)) = filteredPrompts s"
  by (cases "sessionPromise s") (simp_all add: play_after_none play_after_some)

lemma onerror_fields:
  "session (onerror s) = None" "sessionPromise (onerror s) = None"
  "connects (onerror s) = connects s" "filteredPrompts (onerror s) = filteredPrompts s"
  "session (onclose s) = None" "sessionPromise (onclose s) = None"
  "connects (onclose s) = connects s" "filteredPrompts (onclose s) = filteredPrompts s"
  by (simp_all add: onerror_def onclose_def dispatchEvent_fields stop_fields)

lemma step_filtered: "filteredPrompts s \<subseteq> filteredPrompts (helper_step dec x s)"
proof (cases x)
  case (CallPlayPause now ok reject)
  then show ?thesis
    by (cases "playbackState s")
       (simp_all add: playPause_def play_filtered pause_fields stop_fields)
qed (simp_all add: setWeightedPrompts_keeps play_filtered pause_fields stop_fields
       onmessage_filtered onerror_fields timeoutFired_def setPlaybackState_fields)

lemma run_filtered: "filteredPrompts s \<subseteq> filteredPrompts (helper_run dec ops s)"
proof (induction ops arbitrary: s)
  case Nil
  show ?case by simp
next
  case (Cons x xs)
  have "filteredPrompts s \<subseteq> filteredPrompts (helper_step dec x s)" by (rule step_filtered)
  also have "\<dots> \<subseteq> filteredPrompts (helper_run dec xs (helper_step dec x s))" by (rule Cons.IH)
  finally show ?case by simp
qed

lemma play_issued: "handles_issued s \<Longrightarrow> handles_issued (snd (play now ok reject s))"
  by (cases "sessionPromise s")
     (auto simp: handles_issued_def play_after_none play_after_some
           split: option.splits promise.splits)

lemma handles_issued_same:
  assumes "session t = session s" and "sessionPromise t = sessionPromise s"
    and "connects t = connects s" and "handles_issued s"
  shows "handles_issued t"
  using assms by (simp add: handles_issued_def split: option.splits promise.splits)

lemma handles_issued_none:
  assumes "session t = None" and "sessionPromise t = None"
  shows "handles_issued t"
  using assms by (simp add: handles_issued_def)

lemma step_issued:
  assumes "handles_issued s"
  shows "handles_issued (helper_step dec x s)"
proof (cases x)
  case (CallSetWeightedPrompts now reject ps)
  with assms show ?thesis
    by (simp add: handles_issued_same [OF setWeightedPrompts_keeps(1-3)])
next
  case (CallPlay now ok reject)
  with assms show ?thesis by (simp add: play_issued)
next
  case CallPause
  with assms show ?thesis by (simp add: handles_issued_same [OF pause_keeps(1-3)])
next
  case CallStop
  then show ?thesis by (simp add: handles_issued_none stop_fields)
next
  case (CallPlayPause now ok reject)
  with assms show ?thesis
    by (cases "playbackState s")
       (simp_all add: playPause_def play_issued handles_issued_same [OF pause_keeps(1-3)]
          handles_issued_none stop_fields)
next
  case (OnMessage now e)
  with assms show ?thesis by (simp add: handles_issued_same [OF onmessage_keeps(1-3)])
next
  case OnError
  then show ?thesis by (simp add: handles_issued_none onerror_fields)
next
  case OnClose
  then show ?thesis by (simp add: handles_issued_none onerror_fields)
next
  case OnTimeout
  with assms show ?thesis
    by (simp add: timeoutFired_def handles_issued_same [OF setPlaybackState_fields(1-3)])
qed

lemma run_issued: "handles_issued s \<Longrightarrow> handles_issued (helper_run dec ops s)"
  by (induction ops arbitrary: s) (simp_all add: step_issued)

lemma reachable_issued: "handles_issued (helper_run dec ops helper_new)"
  by (rule run_issued) (simp add: handles_issued_def helper_new_def)


lemmas sample_eval = sample_prompts_def helper_new_def play_def play_begin_def play_resume_def
  getSession_def connect_def
  setWeightedPrompts_def throttle_def throttle_init_def setWeightedPrompts_body_def activePrompts_def
  setPlaybackState_def dispatchEvent_def callSession_def pause_def stop_def Let_def
  onmessage_def sample_notice_def

lemma sample_playing_eq:
  "sample_playing =
     \<lparr>session = Some 0, sessionPromise = Some (Resolves 0), connectionError = True,
      filteredPrompts = {}, nextStartTime = 0, playbackState = Loading,
      prompts = sample_prompts 1,
      swpThrottle = \<lparr>lastCall = Millis 1000, lastResult = Some ()\<rparr>,
      dispatched = [PlaybackStateChanged Loading],
      sessionCalls = [(0, SetWeightedPromptsCall (map snd (sample_prompts 1))), (0, PlayCall)],
      connects = 1, started = [], timeouts = []\<rparr>"
  by (simp add: sample_playing_def sample_eval)

text \<open>
  C4, as amended. For every prompt set without an active prompt (every prompt has
  weight 0 or a filtered text): a call of \<^verbatim>\<open>setWeightedPrompts\<close> that the rate limiter
  executes (the first one, or one at least 200 ms after the last executed one) raises
  the error event and sets the playback state to paused, whether or not a session is
  connected; a call within 200 ms of the last executed one changes nothing.
\<close>

theorem zero_active_prompts_when_executed:
  assumes "\<forall>p\<in>set (map snd ps). weight p = 0 \<or> ptext p \<in> filteredPrompts s"
  shows "(timeSinceLastCall_ge now (lastCall (swpThrottle s)) 200 \<longrightarrow>
            playbackState (setWeightedPrompts now reject ps s) = Paused
          \<and> dispatched (setWeightedPrompts now reject ps s) =
              dispatched s @ [ErrorEvent ''There needs to be one active prompt to play.'',
                              PlaybackStateChanged Paused])
       \<and> (\<not> timeSinceLastCall_ge now (lastCall (swpThrottle s)) 200 \<longrightarrow>
            setWeightedPrompts now reject ps s = s)"
proof -
  from assms have na: "activePrompts (s\<lparr>prompts := ps\<rparr>) = []" by (simp only: no_active)
  show ?thesis
    by (simp add: swp_executed swp_dropped body_no_active [OF na] pause_fields dispatchEvent_def)
qed

theorem zero_active_prompts_when_executed_witness:
  "activePrompts (helper_new\<lparr>prompts := sample_prompts 0\<rparr>) = []
   \<and> playbackState (setWeightedPrompts 1000 None (sample_prompts 0) helper_new) = Paused
   \<and> dispatched (setWeightedPrompts 1000 None (sample_prompts 0) helper_new) =
       [ErrorEvent ''There needs to be one active prompt to play.'', PlaybackStateChanged Paused]"
proof -
  have h: "\<forall>p\<in>set (map snd (sample_prompts 0)). weight p = 0 \<or> ptext p \<in> filteredPrompts helper_new"
    by (simp add: sample_prompts_def)
  have o: "timeSinceLastCall_ge 1000 (lastCall (swpThrottle helper_new)) 200"
    by (simp add: helper_new_def throttle_init_def)
  have d: "dispatched helper_new = []" by (simp add: helper_new_def)
  have a: "activePrompts (helper_new\<lparr>prompts := sample_prompts 0\<rparr>) = []"
    by (simp add: activePrompts_def sample_prompts_def)
  from zero_active_prompts_when_executed [OF h, of 1000 None] o d a show ?thesis by simp
qed

text \<open>
  C4 as stated fails: the application sets an active prompt at 1000 ms and a set
  without active prompts 100 ms later. The second call is dropped by the rate limiter:
  no event is dispatched and the state stays stopped.
\<close>

theorem dropped_call_raises_nothing:
  "activePrompts
     ((setWeightedPrompts 1000 None (sample_prompts 1) helper_new)\<lparr>prompts := sample_prompts 0\<rparr>) = []
   \<and> playbackState
       (setWeightedPrompts 1100 None (sample_prompts 0)
         (setWeightedPrompts 1000 None (sample_prompts 1) helper_new)) = Stopped
   \<and> dispatched
       (setWeightedPrompts 1100 None (sample_prompts 0)
         (setWeightedPrompts 1000 None (sample_prompts 1) helper_new)) = []"
  by (simp add: sample_eval)

text \<open>
  C10. The function wrapped as \<^verbatim>\<open>setWeightedPrompts\<close> stores the incoming map before it
  validates: whatever path it takes, the stored prompts are the new map afterwards, and
  on the path without active prompts (judged on the new map) the coordinator is the
  old one with the new map, the error event and the pause. So it is for every call of
  \<^verbatim>\<open>setWeightedPrompts\<close> that the rate limiter executes.
\<close>

theorem prompts_stored_before_validation:
  "prompts (snd (setWeightedPrompts_body reject ps s)) = ps
   \<and> (length (activePrompts (s\<lparr>prompts := ps\<rparr>)) = 0 \<longrightarrow>
        snd (setWeightedPrompts_body reject ps s) =
          pause (dispatchEvent (ErrorEvent ''There needs to be one active prompt to play.'')
                  (s\<lparr>prompts := ps\<rparr>)))
   \<and> (timeSinceLastCall_ge now (lastCall (swpThrottle s)) 200 \<longrightarrow>
        prompts (setWeightedPrompts now reject ps s) = ps
      \<and> (length (activePrompts (s\<lparr>prompts := ps\<rparr>)) = 0 \<longrightarrow>
           setWeightedPrompts now reject ps s =
             (pause (dispatchEvent (ErrorEvent ''There needs to be one active prompt to play.'')
                      (s\<lparr>prompts := ps\<rparr>)))
               \<lparr>swpThrottle := \<lparr>lastCall = Millis now, lastResult = Some ()\<rparr>\<rparr>))"
proof -
  have "prompts (snd (setWeightedPrompts_body reject ps s)) = ps"
    by (simp add: setWeightedPrompts_body_def Let_def pause_fields dispatchEvent_def
          callSession_def split: option.splits)
  then show ?thesis
    by (simp add: swp_executed body_no_active)
qed

theorem prompts_stored_before_validation_witness:
  "timeSinceLastCall_ge 1200 (lastCall (swpThrottle sample_playing)) 200
   \<and> length (activePrompts (sample_playing\<lparr>prompts := sample_prompts 0\<rparr>)) = 0
   \<and> prompts sample_playing = sample_prompts 1
   \<and> prompts (setWeightedPrompts 1200 None (sample_prompts 0) sample_playing) = sample_prompts 0
   \<and> playbackState (setWeightedPrompts 1200 None (sample_prompts 0) sample_playing) = Paused"
proof -
  have o: "timeSinceLastCall_ge 1200 (lastCall (swpThrottle sample_playing)) 200"
    by (simp add: sample_playing_eq)
  have a: "length (activePrompts (sample_playing\<lparr>prompts := sample_prompts 0\<rparr>)) = 0"
    by (simp add: activePrompts_def sample_prompts_def)
  note t = prompts_stored_before_validation [of None "sample_prompts 0" sample_playing 1200]
  have p: "prompts (setWeightedPrompts 1200 None (sample_prompts 0) sample_playing) = sample_prompts 0"
    using t o by blast
  have e: "setWeightedPrompts 1200 None (sample_prompts 0) sample_playing =
              (pause (dispatchEvent (ErrorEvent ''There needs to be one active prompt to play.'')
                       (sample_playing\<lparr>prompts := sample_prompts 0\<rparr>)))
                \<lparr>swpThrottle := \<lparr>lastCall = Millis 1200, lastResult = Some ()\<rparr>\<rparr>"
    using t o a by blast
  have st: "playbackState (setWeightedPrompts 1200 None (sample_prompts 0) sample_playing) = Paused"
    by (simp add: e pause_fields)
  have c: "prompts sample_playing = sample_prompts 1"
    by (simp add: sample_playing_eq)
  from o a p st c show ?thesis by simp
qed

subsection \<open>Sessions\<close>

text \<open>
  C5 as stated fails: a text filtered during session 0 is still in the set after
  \<^verbatim>\<open>stop()\<close> and a \<^verbatim>\<open>play()\<close> that connects session 1.
\<close>

theorem filtered_texts_survive_reconnect:
  "session (snd (onmessage sample_decoder 0 sample_notice sample_playing)) = Some 0
   \<and> filteredPrompts (snd (onmessage sample_decoder 0 sample_notice sample_playing)) = {''Bossa Nova''}
   \<and> session sample_reconnected = Some 1
   \<and> filteredPrompts sample_reconnected = {''Bossa Nova''}"
  by (simp add: sample_reconnected_def sample_playing_eq sample_eval)

text \<open>
  C5, as amended. The filtered-text set only grows, over any sequence of operations
  on the coordinator: a filtered-prompt notice adds its text, and nothing removes an
  entry; \<^verbatim>\<open>stop()\<close> and \<^verbatim>\<open>play()\<close>, also when it connects anew, leave the set as it is.
\<close>

theorem filtered_texts_only_grow:
  "filteredPrompts s \<subseteq> filteredPrompts (helper_run dec ops s)
   \<and> filteredPrompts (snd (onmessage dec clock e s)) =
       filteredPrompts s \<union> (case filteredPrompt e of None \<Rightarrow> {} | Some fp \<Rightarrow> {fp_text fp})
   \<and> filteredPrompts (stop s) = filteredPrompts s
   \<and> filteredPrompts (snd (play now ok reject s)) = filteredPrompts s"
  by (simp add: run_filtered onmessage_filtered stop_fields play_filtered)

text \<open>
  C6. In the loading state \<^verbatim>\<open>playPause()\<close> is \<^verbatim>\<open>stop()\<close>; \<^verbatim>\<open>stop()\<close> leaves no session
  handle and no cached promise, the clock unprimed and the state stopped; a \<^verbatim>\<open>play()\<close>
  after it opens one more connection, and when that connection is established the
  session and the cached promise are those of the new connection, not the old ones.
  The same holds for the next \<^verbatim>\<open>play()\<close> when an earlier \<^verbatim>\<open>play()\<close>, still waiting for
  its connection at the time of the \<^verbatim>\<open>stop()\<close>, has gone on in between.
\<close>

theorem stop_while_loading_discards_session:
  assumes "playbackState s = Loading" and "handles_issued s"
  shows "playPause now ok reject s = (None, stop s)
       \<and> session (stop s) = None \<and> sessionPromise (stop s) = None
       \<and> nextStartTime (stop s) = 0 \<and> playbackState (stop s) = Stopped
       \<and> connects (snd (play now' ok' reject' (stop s))) = Suc (connects s)
       \<and> session (snd (play now' True reject' (stop s))) = Some (connects s)
       \<and> sessionPromise (snd (play now' True reject' (stop s))) = Some (Resolves (connects s))
       \<and> session (snd (play now' True reject' (stop s))) \<noteq> session s
       \<and> sessionPromise (snd (play now' True reject' (stop s))) \<noteq> sessionPromise s
       \<and> connects (snd (play now' ok' reject' (snd (play_resume now'' reject'' p (stop s)))))
           = Suc (connects s)
       \<and> session (snd (play now' True reject' (snd (play_resume now'' reject'' p (stop s)))))
           = Some (connects s)"
proof -
  have n: "sessionPromise (stop s) = None" by (simp add: stop_fields)
  have r: "sessionPromise (snd (play_resume now'' reject'' p (stop s))) = None"
    by (simp add: play_resume_keeps stop_fields)
  have c: "connects (snd (play_resume now'' reject'' p (stop s))) = connects s"
    by (simp add: play_resume_keeps stop_fields)
  from assms(2) have "session s \<noteq> Some (connects s)"
    and "sessionPromise s \<noteq> Some (Resolves (connects s))"
    by (auto simp: handles_issued_def)
  with assms(1) show ?thesis
    by (simp add: playPause_def stop_fields play_after_none [OF n] play_after_none [OF r] c)
qed

theorem stop_while_loading_discards_session_witness:
  "playbackState sample_playing = Loading \<and> handles_issued sample_playing
   \<and> session sample_playing = Some 0
   \<and> playPause 5000 True None sample_playing = (None, stop sample_playing)
   \<and> session (stop sample_playing) = None
   \<and> session (snd (play 9000 True None (stop sample_playing))) = Some 1"
proof -
  have l: "playbackState sample_playing = Loading" by (simp add: sample_playing_eq)
  have i: "handles_issued sample_playing" by (simp add: sample_playing_eq handles_issued_def)
  have c: "connects sample_playing = 1" "session sample_playing = Some 0"
    by (simp_all add: sample_playing_eq)
  from stop_while_loading_discards_session [OF l i, of 5000 True None 9000 True None] l i c
  show ?thesis by simp
qed


subsection \<open>The MIDI bridge\<close>

lemma low_nibble: "(x::8 word) AND 0x0F = take_bit 4 x"
proof -
  have "(0x0F::8 word) = mask 4" by (simp add: mask_eq_exp_minus_1)
  then show ?thesis by (simp only: take_bit_eq_mask)
qed

lemma unat_low_nibble: "unat (take_bit 4 (x::8 word)) = unat x mod 16"
proof -
  have "unat (take_bit 4 x) = take_bit 4 (unat x)"
    by (simp only: unsigned_take_bit_eq)
  also have "\<dots> = unat x mod 16" by (simp add: take_bit_eq_mod)
  finally show ?thesis .
qed

lemma bit_F0: "n < 8 \<Longrightarrow> bit (0xF0::8 word) n = (4 \<le> n)"
proof -
  assume "n < 8"
  then have "n \<in> {0, 1, 2, 3, 4, 5, 6, 7}" by auto
  then show ?thesis by auto
qed

lemma high_nibble: "(x::8 word) AND 0xF0 = push_bit 4 (drop_bit 4 x)"
proof (rule bit_word_eqI)
  fix n assume "n < LENGTH(8)"
  then have n: "n < 8" by simp
  show "bit (x AND 0xF0) n = bit (push_bit 4 (drop_bit 4 x)) n"
  proof (cases "4 \<le> n")
    case True
    then have "4 + (n - 4) = n" by simp
    with True n show ?thesis
      by (simp only: bit_and_iff bit_F0 [OF n] bit_push_bit_iff bit_drop_bit_eq) simp
  next
    case False
    with n show ?thesis
      by (simp only: bit_and_iff bit_F0 [OF n] bit_push_bit_iff) simp
  qed
qed

lemma unat_high_nibble: "unat ((x::8 word) AND 0xF0) = 16 * (unat x div 16)"
proof -
  have "unat x < 256" using unsigned_less [of x, where 'a = nat] by simp
  then have lt: "16 * (unat x div 16) < 256" by simp
  have "unat (push_bit 4 (drop_bit 4 x)) = take_bit 8 (push_bit 4 (unat (drop_bit 4 x)))"
    by (simp only: unsigned_push_bit_eq) simp
  also have "unat (drop_bit 4 x) = drop_bit 4 (unat x)"
    by (simp only: unat_drop_bit_eq)
  also have "take_bit 8 (push_bit 4 (drop_bit 4 (unat x))) = (16 * (unat x div 16)) mod 256"
    by (simp add: take_bit_eq_mod push_bit_eq_mult drop_bit_eq_div mult.commute)
  also have "\<dots> = 16 * (unat x div 16)" using lt by simp
  finally show ?thesis by (simp only: high_nibble)
qed

lemma sixteen_div: "(16 * ((n::nat) div 16) = 176) = (176 \<le> n \<and> n \<le> 191)"
proof -
  define q r where "q = n div 16" and "r = n mod 16"
  have n: "16 * q + r = n" and r: "r < 16" by (simp_all add: q_def r_def)
  consider "q \<le> 10" | "q = 11" | "12 \<le> q" by linarith
  then have c: "(16 * q = 176) = (176 \<le> 16 * q + r \<and> 16 * q + r \<le> 191)"
    using r by cases linarith+
  have "(16 * (n div 16) = 176) = (16 * q = 176)" by (simp only: q_def)
  also note c
  also have "(176 \<le> 16 * q + r \<and> 16 * q + r \<le> 191) = (176 \<le> n \<and> n \<le> 191)"
    by (simp only: n)
  finally show ?thesis .
qed

lemma control_change_status:
  "((x::8 word) AND 0xF0 = 0xB0) = (0xB0 \<le> x \<and> x \<le> 0xBF)"
proof -
  have "(x AND 0xF0 = 0xB0) = (unat (x AND 0xF0) = unat (0xB0::8 word))"
    by (simp only: word_unat_eq_iff)
  also have "\<dots> = (16 * (unat x div 16) = 176)"
    by (simp only: unat_high_nibble) simp
  also have "\<dots> = (176 \<le> unat x \<and> unat x \<le> 191)" by (rule sixteen_div)
  also have "\<dots> = (0xB0 \<le> x \<and> x \<le> 0xBF)"
    by (simp add: word_le_nat_alt)
  finally show ?thesis .
qed


lemma js_index_simps:
  "js_index [] i = None"
  "js_index (x # xs) 0 = Some x"
  "js_index (x # xs) (Suc i) = js_index xs i"
  by (simp_all add: js_index_def)

text \<open>
  C7. What a raw message adds to the dispatched \<^verbatim>\<open>cc-message\<close> events: one event when
  the message comes from the active input and its status byte lies in 0xB0..0xBF
  (high nibble 0xB), nothing otherwise (other devices, other status bytes, no data, no
  bytes). The event's channel is the low nibble of the status byte; for a message of
  three bytes or more its cc is the second byte and its value the third.
\<close>

theorem cc_message_emitted_iff:
  "cc_messages (onmidimessage input_id ev d) =
     cc_messages d @
       (case ev of
          None \<Rightarrow> []
        | Some [] \<Rightarrow> []
        | Some (status # rest) \<Rightarrow>
            if activeMidiInputId d = Some input_id \<and> 0xB0 \<le> status \<and> status \<le> 0xBF
            then [\<lparr>detail_cc = js_index rest 0, detail_value = js_index rest 1,
                   detail_channel = take_bit 4 status\<rparr>]
            else [])
   \<and> cc_messages (onmidimessage input_id (Some (status # second # third # rest)) d) =
       cc_messages d @
         (if activeMidiInputId d = Some input_id \<and> 0xB0 \<le> status \<and> status \<le> 0xBF
          then [\<lparr>detail_cc = Some second, detail_value = Some third,
                 detail_channel = take_bit 4 status\<rparr>]
          else [])
   \<and> unat (take_bit 4 status) = unat status mod 16
   \<and> activeMidiInputId (onmidimessage input_id ev d) = activeMidiInputId d"
proof -
  have general: "cc_messages (onmidimessage i e d) =
     cc_messages d @
       (case e of
          None \<Rightarrow> []
        | Some [] \<Rightarrow> []
        | Some (status # rest) \<Rightarrow>
            if activeMidiInputId d = Some i \<and> 0xB0 \<le> status \<and> status \<le> 0xBF
            then [\<lparr>detail_cc = js_index rest 0, detail_value = js_index rest 1,
                   detail_channel = take_bit 4 status\<rparr>]
            else [])" for i e
  proof (cases e)
    case None
    then show ?thesis by (simp add: onmidimessage_def)
  next
    case (Some bytes)
    show ?thesis
    proof (cases bytes)
      case Nil
      with Some show ?thesis
        by (simp add: onmidimessage_def js_index_simps js_and_def)
    next
      case (Cons status rest)
      have idx: "js_index (status # rest) 1 = js_index rest 0" "js_index (status # rest) 2 = js_index rest 1"
        by (simp_all add: js_index_def)
      from Some Cons show ?thesis
        by (simp only: onmidimessage_def Let_def js_and_def js_index_simps idx option.case
              low_nibble control_change_status list.case)
           auto
    qed
  qed
  have "activeMidiInputId (onmidimessage input_id ev d) = activeMidiInputId d"
    by (simp add: onmidimessage_def Let_def split: option.splits)
  with general [of input_id ev] general [of input_id "Some (status # second # third # rest)"]
  show ?thesis by (simp add: js_index_simps unat_low_nibble)
qed


subsection \<open>Saving and loading prompt sets\<close>

lemma new_property_last:
  "\<forall>k'\<in>fst ` set obj. enumerated_before k' k \<Longrightarrow> new_property k v obj = obj @ [(k, v)]"
  by (induction obj) auto

lemma define_property_fresh:
  "k \<notin> fst ` set obj \<Longrightarrow> \<forall>k'\<in>fst ` set obj. enumerated_before k' k \<Longrightarrow>
     define_property k v obj = obj @ [(k, v)]"
  by (simp add: define_property_def new_property_last)

lemma foldl_define_distinct:
  "distinct (map fst (acc @ kvs)) \<Longrightarrow> sorted_wrt enumerated_before (map fst (acc @ kvs)) \<Longrightarrow>
     foldl (\<lambda>obj kv. define_property (fst kv) (snd kv) obj) acc kvs = acc @ kvs"
proof (induction kvs arbitrary: acc)
  case Nil
  show ?case by simp
next
  case (Cons kv kvs)
  from Cons.prems(1) have f: "fst kv \<notin> fst ` set acc" by auto
  from Cons.prems(2) have b: "\<forall>k'\<in>fst ` set acc. enumerated_before k' (fst kv)"
    by (auto simp: sorted_wrt_append)
  from Cons.prems have d: "distinct (map fst ((acc @ [kv]) @ kvs))"
    and o: "sorted_wrt enumerated_before (map fst ((acc @ [kv]) @ kvs))" by simp_all
  have "define_property (fst kv) (snd kv) acc = acc @ [kv]"
    using define_property_fresh [OF f b] by simp
  with Cons.IH [OF d o] show ?case by simp
qed

lemma define_properties_distinct:
  "distinct (map fst kvs) \<Longrightarrow> sorted_wrt enumerated_before (map fst kvs) \<Longrightarrow>
     define_properties kvs = kvs"
  using foldl_define_distinct [of "[]" kvs] by (simp add: define_properties_def)

lemma number_roundtrip:
  "json_number n \<Longrightarrow> JSON_parse (number_document n) = VNum n"
  by (cases n) (auto simp: json_number_def number_document_def)

lemma stringify_parse:
  "json_data v \<Longrightarrow> \<exists>j. JSON_stringify v = Some j \<and> JSON_parse j = v"
proof (induction v)
  case (VArr xs)
  have "JSON_parse (element_document (JSON_stringify x)) = x" if "x \<in> set xs" for x
  proof -
    from that VArr.prems have "json_data x" by (simp add: list_all_iff)
    with VArr.IH [OF that] obtain j where "JSON_stringify x = Some j" "JSON_parse j = x" by blast
    then show ?thesis by (simp add: element_document_def)
  qed
  then have "map (\<lambda>x. JSON_parse (element_document (JSON_stringify x))) xs = xs"
    by (intro map_idI)
  then show ?case by (simp add: comp_def)
next
  case (VObj kvs)
  then have d: "distinct (map fst kvs)" "sorted_wrt enumerated_before (map fst kvs)" by simp_all
  have each: "map (map_prod id JSON_parse) (property_document (map_prod id JSON_stringify kv)) = [kv]"
    if "kv \<in> set kvs" for kv
  proof -
    obtain k v where kv: "kv = (k, v)" by (cases kv)
    with that VObj.prems have jd: "json_data v" by (auto simp: list_all_iff)
    from kv have sn: "v \<in> Basic_BNFs.snds kv" by simp
    from VObj.IH [OF that sn jd] obtain j where "JSON_stringify v = Some j" "JSON_parse j = v"
      by blast
    with kv show ?thesis by (simp add: property_document_def)
  qed
  have "map (map_prod id JSON_parse)
          (concat (map property_document (map (map_prod id JSON_stringify) kvs))) = kvs"
    using each
  proof (induction kvs)
    case Nil
    show ?case by simp
  next
    case (Cons kv kvs)
    then show ?case by simp
  qed
  with d show ?case by (simp add: define_properties_distinct)
qed (simp_all add: number_roundtrip)

lemma well_formed_entryE:
  assumes "well_formed_entry (k, v)"
  obtains ident kvs t where "k = VStr ident" and "ident \<noteq> []" and "v = VObj kvs"
    and "map_of kvs ''promptId'' = Some (VStr ident)"
    and "map_of kvs ''text'' = Some (VStr t)" and "t \<noteq> []"
proof (cases k)
  case (VStr ident)
  show thesis
  proof (cases v)
    case (VObj kvs)
    from assms VStr VObj have i: "ident \<noteq> []"
      and pid: "map_of kvs ''promptId'' = Some (VStr ident)"
      and tx: "(case map_of kvs ''text'' of Some (VStr t) \<Rightarrow> t \<noteq> [] | _ \<Rightarrow> False)"
      by (simp_all add: well_formed_entry_def)
    show thesis
    proof (cases "map_of kvs ''text''")
      case None
      with tx show thesis by simp
    next
      case (Some tv)
      with tx obtain t where "tv = VStr t" and "t \<noteq> []" by (cases tv) simp_all
      with Some VStr VObj i pid show thesis
        by (intro that [of ident kvs t]) simp_all
    qed
  qed (use assms VStr in \<open>simp_all add: well_formed_entry_def\<close>)
qed (use assms in \<open>simp_all add: well_formed_entry_def\<close>)

lemma well_formed_entryD:
  assumes "well_formed_entry (k, v)"
  shows "get_property v ''promptId'' = Inr k" and "invalid_entry v = Inr False"
proof -
  from assms obtain ident kvs t where "k = VStr ident" and "ident \<noteq> []" and "v = VObj kvs"
    and "map_of kvs ''promptId'' = Some (VStr ident)"
    and "map_of kvs ''text'' = Some (VStr t)" and "t \<noteq> []"
    by (rule well_formed_entryE)
  then show "get_property v ''promptId'' = Inr k" and "invalid_entry v = Inr False"
    by (simp_all add: invalid_entry_def)
qed

lemma some_invalid_well_formed:
  "list_all well_formed_entry m \<Longrightarrow> some_invalid (map snd m) = Inr False"
proof (induction m)
  case Nil
  show ?case by simp
next
  case (Cons e m)
  obtain k v where e: "e = (k, v)" by (cases e)
  from Cons.prems e have "well_formed_entry (k, v)" and "list_all well_formed_entry m" by simp_all
  with Cons.IH e show ?case by (simp add: well_formed_entryD(2))
qed

lemma map_key_string: "(map_key k = VStr ident) = (k = VStr ident)"
  by (cases k rule: map_key.cases) (auto split: if_splits)

lemma js_map_set_string: "VStr ident \<notin> fst ` set m \<Longrightarrow> js_map_set (VStr ident) v m = m @ [(VStr ident, v)]"
proof (induction m)
  case Nil
  show ?case by simp
next
  case (Cons e m)
  obtain k' v' where e: "e = (k', v')" by (cases e)
  with Cons.prems have "k' \<noteq> VStr ident" and "VStr ident \<notin> fst ` set m" by auto
  with Cons.IH e show ?case using map_key_string [of k' ident] by auto
qed

lemma js_map_set_fresh:
  assumes "k = VStr ident" and "k \<notin> fst ` set m"
  shows "js_map_set k v m = m @ [(k, v)]"
  using assms js_map_set_string by simp

lemma set_each_well_formed:
  assumes "list_all well_formed_entry m" and "distinct (map fst (acc @ m))"
  shows "set_each (map snd m) acc = Inr (acc @ m)"
  using assms
proof (induction m arbitrary: acc)
  case Nil
  show ?case by simp
next
  case (Cons e m)
  obtain k v where e: "e = (k, v)" by (cases e)
  from Cons.prems e have wf: "well_formed_entry (k, v)" and rest: "list_all well_formed_entry m"
    by simp_all
  from wf obtain ident where k: "k = VStr ident" by (rule well_formed_entryE)
  have g: "get_property v ''promptId'' = Inr k" by (rule well_formed_entryD(1) [OF wf])
  from Cons.prems(2) e have fresh: "k \<notin> fst ` set acc" and d: "distinct (map fst ((acc @ [(k, v)]) @ m))"
    by auto
  have "set_each (map snd (e # m)) acc = set_each (map snd m) (acc @ [(k, v)])"
    using e g js_map_set_fresh [OF k fresh] by simp
  also have "\<dots> = Inr ((acc @ [(k, v)]) @ m)" by (rule Cons.IH [OF rest d])
  finally show ?case using e by simp
qed

lemma some_invalid_member:
  assumes "p \<in> set ps" and "invalid_entry p \<noteq> Inr False"
  shows "some_invalid ps \<noteq> Inr False"
  using assms
  by (induction ps) (auto split: sum.splits bool.splits)

lemma parse_set_invalid:
  assumes "JSON_parse doc = VArr ps" and "p \<in> set ps" and "invalid_entry p \<noteq> Inr False"
  shows "\<exists>err. parse_set (Document doc) = Inl err"
proof (cases "some_invalid ps")
  case (Inl e)
  with assms(1) show ?thesis by (simp add: parse_set_def)
next
  case (Inr b)
  with some_invalid_member [OF assms(2,3)] have "b = True" by simp
  with Inr assms(1) show ?thesis by (simp add: parse_set_def)
qed

lemma invalid_entry_lacking:
  assumes "\<not> has_property p ''promptId'' \<or> \<not> has_property p ''text''"
  shows "invalid_entry p \<noteq> Inr False"
  using assms
  by (cases "get_property p ''promptId''"; cases "get_property p ''text''")
     (auto simp: has_property_def invalid_entry_def)

lemma save_json_prompts:
  assumes "json_prompts m"
  shows "\<exists>doc. JSON_stringify (VArr (map snd m)) = Some doc \<and> JSON_parse doc = VArr (map snd m)"
proof -
  from assms have "json_data (VArr (map snd m))" by (simp add: json_prompts_def list_all_iff)
  then show ?thesis by (rule stringify_parse)
qed

lemma array_index_no_digit: "digit_value c = None \<Longrightarrow> array_index (c # cs) = None"
  by (auto simp: array_index_def)

lemma sample_names:
  "array_index ''promptId'' = None" "array_index ''text'' = None" "array_index ''weight'' = None"
  "array_index ''cc'' = None" "array_index ''color'' = None"
  by (simp_all add: array_index_no_digit digit_value_def)

lemma sample_properties:
  "define_properties [(''promptId'', a), (''text'', b), (''weight'', c), (''cc'', d), (''color'', e)] =
     [(''promptId'', a), (''text'', b), (''weight'', c), (''cc'', d), (''color'', e)]"
  by (rule define_properties_distinct) (simp_all add: enumerated_before_def sample_names)

lemma json_sample_object:
  "json_number w \<Longrightarrow> json_data (sample_object ident t w)"
  by (simp add: sample_object_def enumerated_before_def sample_names json_number_def
        zero_not_infinity)

text \<open>
  C8, for prompt sets that JSON can say. For a prompt set whose entries have non-empty
  \<^verbatim>\<open>promptId\<close> and \<^verbatim>\<open>text\<close> and whose prompt objects hold no \<^verbatim>\<open>undefined\<close>, \<^verbatim>\<open>NaN\<close>, infinity
  or \<^verbatim>\<open>-0\<close>, loading the file that saving writes puts back the same map: the same keys
  with the same objects in the same order, announced by the two events of a successful
  load. Loading an array in which some entry lacks \<^verbatim>\<open>promptId\<close> or \<^verbatim>\<open>text\<close> dispatches
  one error event and leaves the prompts as they were.
\<close>

theorem save_then_load_restores:
  assumes "prompt_set (dj_prompts c)" and "json_prompts (dj_prompts c)"
  shows "handleLoadSet (Some (handleSaveSet c)) c' =
           c'\<lparr>dj_prompts := dj_prompts c,
              dj_dispatched := dj_dispatched c' @
                [PromptsChanged (dj_prompts c), InfoEvent ''Set loaded successfully!'']\<rparr>
       \<and> (JSON_parse doc = VArr ps \<and> p \<in> set ps
            \<and> (\<not> has_property p ''promptId'' \<or> \<not> has_property p ''text'') \<longrightarrow>
            dj_prompts (handleLoadSet (Some (Document doc)) c') = dj_prompts c'
          \<and> (\<exists>err. dj_dispatched (handleLoadSet (Some (Document doc)) c') =
                      dj_dispatched c' @ [LoadErrorEvent err]))"
proof (intro conjI impI)
  from assms(1) have wf: "list_all well_formed_entry (dj_prompts c)"
    and d: "distinct (map fst ([] @ dj_prompts c))"
    by (simp_all add: prompt_set_def)
  from save_json_prompts [OF assms(2)] obtain doc' where
    s: "JSON_stringify (VArr (map snd (dj_prompts c))) = Some doc'"
    and p: "JSON_parse doc' = VArr (map snd (dj_prompts c))" by blast
  have "parse_set (handleSaveSet c) = Inr (dj_prompts c)"
    using some_invalid_well_formed [OF wf] set_each_well_formed [OF wf d] s p
    by (simp add: parse_set_def handleSaveSet_def)
  then show "handleLoadSet (Some (handleSaveSet c)) c' =
           c'\<lparr>dj_prompts := dj_prompts c,
              dj_dispatched := dj_dispatched c' @
                [PromptsChanged (dj_prompts c), InfoEvent ''Set loaded successfully!'']\<rparr>"
    by (simp add: handleLoadSet_def)
next
  assume a: "JSON_parse doc = VArr ps \<and> p \<in> set ps
            \<and> (\<not> has_property p ''promptId'' \<or> \<not> has_property p ''text'')"
  then have "JSON_parse doc = VArr ps" and "p \<in> set ps" and "invalid_entry p \<noteq> Inr False"
    by (simp_all add: invalid_entry_lacking)
  from parse_set_invalid [OF this] obtain err where e: "parse_set (Document doc) = Inl err" ..
  then show "dj_prompts (handleLoadSet (Some (Document doc)) c') = dj_prompts c'"
    by (simp add: handleLoadSet_def)
  from e show "\<exists>err. dj_dispatched (handleLoadSet (Some (Document doc)) c') =
                     dj_dispatched c' @ [LoadErrorEvent err]"
    by (simp add: handleLoadSet_def)
qed

theorem save_then_load_restores_witness:
  "prompt_set (dj_prompts sample_dj) \<and> json_prompts (dj_prompts sample_dj)
   \<and> handleLoadSet (Some (handleSaveSet sample_dj)) \<lparr>dj_prompts = [], dj_dispatched = []\<rparr> =
      \<lparr>dj_prompts = sample_set,
       dj_dispatched = [PromptsChanged sample_set, InfoEvent ''Set loaded successfully!'']\<rparr>
   \<and> JSON_parse (JArr [JObj [(''promptId'', JStr ''prompt-0''), (''text'', JStr [])]]) =
        VArr [VObj [(''promptId'', VStr ''prompt-0''), (''text'', VStr [])]]
   \<and> \<not> has_property (VObj [(''promptId'', VStr ''prompt-0''), (''text'', VStr [])]) ''text''
   \<and> dj_prompts (handleLoadSet
        (Some (Document (JArr [JObj [(''promptId'', JStr ''prompt-0''), (''text'', JStr [])]])))
        sample_dj) = sample_set"
proof -
  have h: "prompt_set (dj_prompts sample_dj)"
    by (simp add: sample_dj_def sample_set_def sample_object_def prompt_set_def well_formed_entry_def)
  have j: "json_prompts (dj_prompts sample_dj)"
    by (simp add: sample_dj_def sample_set_def json_prompts_def json_sample_object json_number_def
          zero_not_infinity seconds_finite)
  have q: "JSON_parse (JArr [JObj [(''promptId'', JStr ''prompt-0''), (''text'', JStr [])]]) =
        VArr [VObj [(''promptId'', VStr ''prompt-0''), (''text'', VStr [])]]"
    by (simp add: define_properties_def define_property_def enumerated_before_def sample_names)
  have l: "\<not> has_property (VObj [(''promptId'', VStr ''prompt-0''), (''text'', VStr [])]) ''text''"
    by (simp add: has_property_def)
  note t = save_then_load_restores [OF h j,
      of "\<lparr>dj_prompts = [], dj_dispatched = []\<rparr>"
         "JArr [JObj [(''promptId'', JStr ''prompt-0''), (''text'', JStr [])]]"
         "[VObj [(''promptId'', VStr ''prompt-0''), (''text'', VStr [])]]"
         "VObj [(''promptId'', VStr ''prompt-0''), (''text'', VStr [])]"]
  note u = save_then_load_restores [OF h j,
      of sample_dj
         "JArr [JObj [(''promptId'', JStr ''prompt-0''), (''text'', JStr [])]]"
         "[VObj [(''promptId'', VStr ''prompt-0''), (''text'', VStr [])]]"
         "VObj [(''promptId'', VStr ''prompt-0''), (''text'', VStr [])]"]
  have a: "handleLoadSet (Some (handleSaveSet sample_dj)) \<lparr>dj_prompts = [], dj_dispatched = []\<rparr> =
      \<lparr>dj_prompts = sample_set,
       dj_dispatched = [PromptsChanged sample_set, InfoEvent ''Set loaded successfully!'']\<rparr>"
    using t by (simp add: sample_dj_def)
  have "dj_prompts (handleLoadSet
        (Some (Document (JArr [JObj [(''promptId'', JStr ''prompt-0''), (''text'', JStr [])]])))
        sample_dj) = dj_prompts sample_dj"
    using u q l by simp
  then have b: "dj_prompts (handleLoadSet
        (Some (Document (JArr [JObj [(''promptId'', JStr ''prompt-0''), (''text'', JStr [])]])))
        sample_dj) = sample_set"
    by (simp add: sample_dj_def)
  from h j a q l b show ?thesis by blast
qed

text \<open>
  C8 as stated, for every prompt set whose entries have non-empty \<^verbatim>\<open>promptId\<close> and
  \<^verbatim>\<open>text\<close>, does not hold: a prompt whose weight is \<^verbatim>\<open>NaN\<close> is saved with the weight
  \<^verbatim>\<open>null\<close>, and loading the file gives a prompt whose weight is \<^verbatim>\<open>null\<close>.
\<close>

theorem not_a_number_is_not_restored:
  "prompt_set nan_set
   \<and> dj_prompts (handleLoadSet (Some (handleSaveSet \<lparr>dj_prompts = nan_set, dj_dispatched = []\<rparr>))
        \<lparr>dj_prompts = [], dj_dispatched = []\<rparr>) =
      [(VStr ''prompt-0'',
        VObj [(''promptId'', VStr ''prompt-0''), (''text'', VStr ''Bossa Nova''), (''weight'', VNull),
              (''cc'', VNum (Signed False 0)), (''color'', VStr ''#9900ff'')])]
   \<and> dj_prompts (handleLoadSet (Some (handleSaveSet \<lparr>dj_prompts = nan_set, dj_dispatched = []\<rparr>))
        \<lparr>dj_prompts = [], dj_dispatched = []\<rparr>) \<noteq> nan_set
   \<and> get_property (snd (hd nan_set)) ''weight'' = Inr (VNum NaN)"
  by (simp add: nan_set_def sample_object_def prompt_set_def well_formed_entry_def
        handleLoadSet_def handleSaveSet_def parse_set_def invalid_entry_def
        number_document_def element_document_def property_document_def sample_properties
        zero_not_infinity)

end
